theory Spec2Isabelle
  imports Main "HOL-Library.Sublist"
begin

section \<open>The pattern trie of freqsubseq.py\<close>

text \<open>
  The module constants. \<open>MAX_SIZE\<close> is \<open>int(round(MEM_QUEUE / MEM_PER_ELEM))\<close>; the quotient
  \<open>8 * 10^9 / 80\<close> is the whole number \<open>10^8\<close>, so the rounding changes nothing.
\<close>

definition NUCLEOTIDES :: "char list" where
  "NUCLEOTIDES = [CHR ''A'', CHR ''C'', CHR ''T'', CHR ''G'']"

definition MEM_QUEUE :: int where
  "MEM_QUEUE = 8 * 10 ^ 9"

definition MEM_PER_ELEM :: int where
  "MEM_PER_ELEM = 80"

definition MAX_SIZE :: int where
  "MAX_SIZE = MEM_QUEUE div MEM_PER_ELEM"

text \<open>
  The exceptions. \<open>PatternNotFound\<close> is the only exception the trie's own methods raise, so
  \<open>child\<close> and \<open>pattern\<close> return \<open>pattern_not_found + tree\<close>. The mining functions can fail
  with \<open>ExceedAllocatedMemory\<close>, and Python itself raises \<open>AttributeError\<close> when \<open>node.idx\<close>
  is read on a node that has no such attribute and \<open>KeyError\<close> when a dictionary is read at
  a missing key.
\<close>

datatype pattern_not_found = PatternNotFound

datatype error = ExceedAllocatedMemory | AttributeError | KeyError

text \<open>
  A \<open>Tree\<close> object has the attribute \<open>seq\<close>, the optional attributes \<open>count\<close> and \<open>idx\<close>
  (absent until first assigned, which \<open>hasattr\<close> tests), and one attribute per child, named
  by the child's last character. Lengths, offsets and indices are natural numbers; counts
  and thresholds are Python integers.
\<close>

datatype tree =
  Tree (seq: string) (count: "int option") (idx: "nat option") (children: "char \<Rightarrow> tree option")

definition set_count :: "tree \<Rightarrow> int \<Rightarrow> tree" where
  "set_count t c = Tree (seq t) (Some c) (idx t) (children t)"

definition set_idx :: "tree \<Rightarrow> nat \<Rightarrow> tree" where
  "set_idx t i = Tree (seq t) (count t) (Some i) (children t)"

definition set_child :: "tree \<Rightarrow> char \<Rightarrow> tree \<Rightarrow> tree" where
  "set_child t nc k = Tree (seq t) (count t) (idx t) ((children t)(nc \<mapsto> k))"

definition has_child :: "tree \<Rightarrow> char \<Rightarrow> bool" where
  "has_child t nc = (children t nc \<noteq> None)"

definition child :: "tree \<Rightarrow> char \<Rightarrow> pattern_not_found + tree" where
  "child t nc = (case children t nc of Some k \<Rightarrow> Inr k | None \<Rightarrow> Inl PatternNotFound)"

text \<open>
  \<open>add\<close> mutates the tree in place; the model returns the new tree. When the child is
  missing a fresh \<open>Tree(self.seq + nc)\<close> is installed first, so the following
  \<open>self.child(nc)\<close> cannot raise. \<open>attr_val\<close> is only ever \<open>{'idx': v}\<close> in the repository.
\<close>

fun add :: "tree \<Rightarrow> string \<Rightarrow> int option \<Rightarrow> nat option \<Rightarrow> tree" where
  "add t [] cnt attr_val =
     (let t1 = (case cnt of None \<Rightarrow> t
                | Some c \<Rightarrow> set_count t (case count t of Some k \<Rightarrow> k + c | None \<Rightarrow> c))
      in (case attr_val of None \<Rightarrow> t1 | Some v \<Rightarrow> set_idx t1 v))"
| "add t (nc # rest) cnt attr_val =
     (let k = (case children t nc of None \<Rightarrow> Tree (seq t @ [nc]) None None (\<lambda>_. None)
               | Some k \<Rightarrow> k)
      in set_child t nc (add k rest cnt attr_val))"

fun pattern :: "tree \<Rightarrow> string \<Rightarrow> pattern_not_found + tree" where
  "pattern t [] = Inr t"
| "pattern t (nc # rest) =
     (if \<not> has_child t nc then Inl PatternNotFound
      else (case child t nc of Inl e \<Rightarrow> Inl e | Inr k \<Rightarrow> pattern k rest))"

text \<open>
  A node object is reached through one path only (the structure is a tree), so writing to
  a node that \<open>pattern\<close> returned is writing at that path: \<open>store t path v\<close> puts the node
  \<open>v\<close> where the path leads and leaves the tree alone when the path is absent.
\<close>

fun store :: "tree \<Rightarrow> string \<Rightarrow> tree \<Rightarrow> tree" where
  "store t [] v = v"
| "store t (nc # rest) v =
     (case children t nc of None \<Rightarrow> t | Some k \<Rightarrow> set_child t nc (store k rest v))"

definition increment_count :: "tree \<Rightarrow> string \<Rightarrow> int \<Rightarrow> tree" where
  "increment_count t sq c =
     (case pattern t sq of
        Inl PatternNotFound \<Rightarrow> t
      | Inr node \<Rightarrow>
          store t sq (set_count node (case count node of Some k \<Rightarrow> k + c | None \<Rightarrow> c)))"

definition has_count_at_least :: "tree \<Rightarrow> int \<Rightarrow> bool" where
  "has_count_at_least t thrd = (case count t of None \<Rightarrow> False | Some c \<Rightarrow> thrd \<le> c)"

definition all_children :: "tree \<Rightarrow> tree list" where
  "all_children t =
     concat (map (\<lambda>nc. case children t nc of None \<Rightarrow> [] | Some k \<Rightarrow> [k]) NUCLEOTIDES)"

text \<open>
  \<open>all_nodes\<close> yields the node itself and then the nodes of each child's subtree, the
  children taken in the order of \<open>NUCLEOTIDES\<close>.
\<close>

primrec all_nodes :: "tree \<Rightarrow> tree list" where
  "all_nodes (Tree s c i ch) =
     Tree s c i ch #
     concat (map (\<lambda>nc. case map_option all_nodes (ch nc) of None \<Rightarrow> [] | Some ns \<Rightarrow> ns)
                 NUCLEOTIDES)"

definition all_patterns_at_least :: "tree \<Rightarrow> int \<Rightarrow> (string \<times> int) list" where
  "all_patterns_at_least t thrd =
     concat (map (\<lambda>node. if has_count_at_least node thrd
                          then (case count node of None \<Rightarrow> [] | Some c \<Rightarrow> [(seq node, c)])
                          else [])
                 (all_nodes t))"

fun nodes_at_level :: "tree \<Rightarrow> nat \<Rightarrow> tree list" where
  "nodes_at_level t 0 = [t]"
| "nodes_at_level t (Suc level) = concat (map (\<lambda>k. nodes_at_level k level) (all_children t))"

text \<open>
  The address of each node that \<open>nodes_at_level\<close> yields, in the same order: the path from
  the root. Loops that assign to the yielded node objects are modelled as stores at these
  paths.
\<close>

fun paths_at_level :: "tree \<Rightarrow> nat \<Rightarrow> string list" where
  "paths_at_level t 0 = [[]]"
| "paths_at_level t (Suc level) =
     concat (map (\<lambda>nc. case children t nc of None \<Rightarrow> []
                        | Some k \<Rightarrow> map ((#) nc) (paths_at_level k level))
                 NUCLEOTIDES)"

section \<open>The pass counter and the corpus\<close>

text \<open>
  A \<open>Counter\<close> object is its count; \<open>counter=None\<close> is \<open>None\<close>. The data reader is the list
  of the sequences its \<open>items()\<close> yields, the same on every pass.
\<close>

definition increment :: "nat option \<Rightarrow> nat option" where
  "increment counter = (case counter of None \<Rightarrow> None | Some c \<Rightarrow> Some (c + 1))"

text \<open>
  \<open>range(n - _len + 1)\<close> is empty when \<open>_len > n\<close>; on natural numbers the bound is written
  \<open>n + 1 - _len\<close>, which is then \<open>0\<close>.
\<close>

definition subsequences :: "string \<Rightarrow> nat \<Rightarrow> string list" where
  "subsequences sq len = map (\<lambda>i. take len (drop i sq)) [0..<length sq + 1 - len]"

definition initialized_tree :: "string list \<Rightarrow> nat \<Rightarrow> tree" where
  "initialized_tree data len =
     fold (\<lambda>sq tree. fold (\<lambda>subseq tree. add tree subseq (Some 1) None) (subsequences sq len) tree)
          data (Tree [] None None (\<lambda>_. None))"

section \<open>The A-priori engine\<close>

text \<open>
  \<open>candidates\<close> walks \<open>nodes_at_level(_len - 1)\<close>. For \<open>_len = 0\<close> the level is \<open>-1\<close>: the
  recursion of \<open>nodes_at_level\<close> never meets level \<open>0\<close> and yields nothing. \<open>prefix[1:]\<close> is
  \<open>tl\<close> and \<open>suffix[-1:]\<close> is the last character as a string (empty for an empty suffix).
  The generator is consumed while \<open>run_apriori\<close> adds the candidates it yields; an added
  candidate only creates the node one level below the prefix nodes that the generator
  reads, so the list is computed from the tree as it is before the additions.
\<close>

definition candidates :: "tree \<Rightarrow> nat \<Rightarrow> int \<Rightarrow> string list" where
  "candidates tree len thrd =
     (if len = 0 then []
      else concat (map (\<lambda>node_p.
             if has_count_at_least node_p thrd
             then (case pattern tree (tl (seq node_p)) of
                     Inl PatternNotFound \<Rightarrow> []
                   | Inr node_i \<Rightarrow>
                       concat (map (\<lambda>node_s.
                            if has_count_at_least node_s thrd
                            then [seq node_p @ drop (length (seq node_s) - 1) (seq node_s)]
                            else [])
                          (all_children node_i)))
             else [])
           (nodes_at_level tree (len - 1))))"

definition run_apriori :: "string list \<Rightarrow> tree \<Rightarrow> nat \<Rightarrow> int \<Rightarrow> tree" where
  "run_apriori data tree len thrd =
     (let tree1 = fold (\<lambda>sq t. add t sq None None) (candidates tree len thrd) tree
      in fold (\<lambda>sq t. fold (\<lambda>subseq t. increment_count t subseq 1) (subsequences sq len) t)
              data tree1)"

section \<open>The position-queue engine\<close>

text \<open>
  \<open>assign_pattern_index\<close> visits the nodes of \<open>nodes_at_level\<close> in order and writes
  \<open>node.idx\<close> on the frequent ones; the loop variable \<open>idx\<close> is threaded through the fold.
\<close>

definition assign_pattern_index :: "tree \<Rightarrow> nat \<Rightarrow> int \<Rightarrow> tree" where
  "assign_pattern_index tree len thrd =
     fst (fold (\<lambda>path (t, i).
                  case pattern t path of
                    Inl PatternNotFound \<Rightarrow> (t, i)
                  | Inr node \<Rightarrow>
                      if has_count_at_least node thrd then (store t path (set_idx node i), i + 1)
                      else (t, i))
               (paths_at_level tree len) (tree, 0))"

text \<open>
  A queue record is \<open>(sequence ID, first position, pattern index)\<close>. \<open>collect\<close> runs a
  loop body over a list in order, appends what each round yields and stops at the first
  exception.
\<close>

type_synonym qrec = "nat \<times> nat \<times> nat"

fun collect :: "('a \<Rightarrow> error + 'b list) \<Rightarrow> 'a list \<Rightarrow> error + 'b list" where
  "collect f [] = Inr []"
| "collect f (x # xs) =
     (case f x of
        Inl e \<Rightarrow> Inl e
      | Inr ys \<Rightarrow> (case collect f xs of Inl e \<Rightarrow> Inl e | Inr zs \<Rightarrow> Inr (ys @ zs)))"

definition initialized_queue :: "string list \<Rightarrow> tree \<Rightarrow> nat \<Rightarrow> int \<Rightarrow> error + qrec list" where
  "initialized_queue data tree len thrd =
     collect (\<lambda>(ident, sq).
        collect (\<lambda>(pos, subseq).
           case pattern tree subseq of
             Inl PatternNotFound \<Rightarrow> Inr []
           | Inr node \<Rightarrow>
               if has_count_at_least node thrd
               then (case idx node of None \<Rightarrow> Inl AttributeError
                     | Some i \<Rightarrow> Inr [(ident, pos, i)])
               else Inr [])
          (enumerate 0 (subsequences sq len)))
       (enumerate 0 data)"

text \<open>
  \<open>candidate_mappings\<close> yields the candidates of \<open>candidates\<close> together with the indices of
  the prefix and suffix nodes; its counter \<open>idx\<close> grows by one per yielded item, so an item's
  index is its position in the yielded sequence.
\<close>

definition candidate_mappings ::
  "tree \<Rightarrow> nat \<Rightarrow> int \<Rightarrow> error + (string \<times> (nat \<times> nat) \<times> nat) list" where
  "candidate_mappings tree len thrd =
     (if len = 0 then Inr []
      else (case collect (\<lambda>node_p.
                   if has_count_at_least node_p thrd
                   then (case pattern tree (tl (seq node_p)) of
                           Inl PatternNotFound \<Rightarrow> Inr []
                         | Inr node_i \<Rightarrow>
                             collect (\<lambda>node_s.
                                if has_count_at_least node_s thrd
                                then (case idx node_p of
                                        None \<Rightarrow> Inl AttributeError
                                      | Some ip \<Rightarrow>
                                          (case idx node_s of
                                             None \<Rightarrow> Inl AttributeError
                                           | Some js \<Rightarrow>
                                               Inr [(seq node_p @
                                                     drop (length (seq node_s) - 1) (seq node_s),
                                                     (ip, js))]))
                                else Inr [])
                               (all_children node_i))
                   else Inr [])
                 (nodes_at_level tree (len - 1)) of
              Inl e \<Rightarrow> Inl e
            | Inr cs \<Rightarrow> Inr (map (\<lambda>(i, (sq, indices)). (sq, indices, i)) (enumerate 0 cs))))"

text \<open>
  The \<open>while\<close> loop of \<open>run_position\<close>: \<open>cur\<close> is \<open>(current_ID, current_pos, current_idx)\<close>,
  the list is what is left of the queue, and \<open>new_queue\<close> and the tree are the loop's state.
\<close>

fun join ::
  "(nat \<times> nat \<rightharpoonup> nat) \<Rightarrow> (nat \<rightharpoonup> string) \<Rightarrow> qrec \<Rightarrow> qrec list \<Rightarrow> qrec list \<Rightarrow> tree
   \<Rightarrow> error + qrec list \<times> tree" where
  "join index_map pattern_d cur [] new_queue tree = Inr (new_queue, tree)"
| "join index_map pattern_d (current_ID, current_pos, current_idx)
        ((next_ID, next_pos, next_idx) # queue) new_queue tree =
     (if next_ID = current_ID \<and> int next_pos - int current_pos = 1
      then (case index_map (current_idx, next_idx) of
              None \<Rightarrow> join index_map pattern_d (next_ID, next_pos, next_idx) queue new_queue tree
            | Some cand_idx \<Rightarrow>
                (case pattern_d cand_idx of
                   None \<Rightarrow> Inl KeyError
                 | Some sq \<Rightarrow>
                     join index_map pattern_d (next_ID, next_pos, next_idx) queue
                       (new_queue @ [(current_ID, current_pos, cand_idx)])
                       (increment_count tree sq 1)))
      else join index_map pattern_d (next_ID, next_pos, next_idx) queue new_queue tree)"

definition run_position ::
  "qrec list \<Rightarrow> tree \<Rightarrow> nat \<Rightarrow> int \<Rightarrow> error + qrec list \<times> tree" where
  "run_position queue tree len thrd =
     (case queue of
        [] \<Rightarrow> Inr (queue, tree)
      | first # rest \<Rightarrow>
          (case candidate_mappings tree len thrd of
             Inl e \<Rightarrow> Inl e
           | Inr cms \<Rightarrow>
               (case fold (\<lambda>(sq, indices, cand_idx) (t, im, pd).
                             (add t sq None (Some cand_idx), im(indices \<mapsto> cand_idx),
                              pd(cand_idx \<mapsto> sq)))
                          cms (tree, Map.empty, Map.empty) of
                  (tree1, index_map, pattern_d) \<Rightarrow>
                    join index_map pattern_d first rest [] tree1)))"

definition number_of_freq_subseq :: "tree \<Rightarrow> nat \<Rightarrow> int \<Rightarrow> int" where
  "number_of_freq_subseq tree len thrd =
     fold (\<lambda>node total.
             if has_count_at_least node thrd
             then (case count node of None \<Rightarrow> total | Some c \<Rightarrow> total + c)
             else total)
          (nodes_at_level tree len) 0"

section \<open>The controller\<close>

datatype mining_method = Apriori | Position | Hybrid

text \<open>
  The local variables of \<open>frequent_patterns\<close> that the loop carries, with the pass counter.
  \<open>queue\<close> and \<open>use_apriori\<close> are unbound in Python until they are assigned; they are read
  only after that, so the model starts them at \<open>[]\<close> and \<open>True\<close>. An exception leaves the
  function with the counter as it was when it was raised.
\<close>

record state =
  tree_of :: tree
  queue_of :: "qrec list"
  use_apriori :: bool
  counter_of :: "nat option"

definition prepare_position :: "string list \<Rightarrow> int \<Rightarrow> nat \<Rightarrow> state \<Rightarrow> error \<times> nat option + state" where
  "prepare_position data thrd len st =
     (let tree1 = assign_pattern_index (tree_of st) len thrd
      in (case initialized_queue data tree1 len thrd of
            Inl e \<Rightarrow> Inl (e, counter_of st)
          | Inr q \<Rightarrow>
              Inr (st\<lparr>tree_of := tree1, queue_of := q, counter_of := increment (counter_of st)\<rparr>)))"

definition step_apriori :: "string list \<Rightarrow> int \<Rightarrow> nat \<Rightarrow> state \<Rightarrow> error \<times> nat option + state" where
  "step_apriori data thrd len st =
     Inr (st\<lparr>tree_of := run_apriori data (tree_of st) len thrd,
             counter_of := increment (counter_of st)\<rparr>)"

definition step_position :: "int \<Rightarrow> nat \<Rightarrow> state \<Rightarrow> error \<times> nat option + state" where
  "step_position thrd len st =
     (case run_position (queue_of st) (tree_of st) len thrd of
        Inl e \<Rightarrow> Inl (e, counter_of st)
      | Inr (q, t) \<Rightarrow> Inr (st\<lparr>tree_of := t, queue_of := q\<rparr>))"

text \<open>One round of the \<open>while\<close> loop, entered with \<open>_len = len\<close>.\<close>

definition iteration ::
  "string list \<Rightarrow> int \<Rightarrow> mining_method \<Rightarrow> nat \<Rightarrow> state \<Rightarrow> error \<times> nat option + state" where
  "iteration data thrd meth len st =
     (case (if meth = Hybrid \<and> use_apriori st
               \<and> number_of_freq_subseq (tree_of st) len thrd \<le> MAX_SIZE
            then (case prepare_position data thrd len st of
                    Inl e \<Rightarrow> Inl e
                  | Inr st1 \<Rightarrow> Inr (st1\<lparr>use_apriori := False\<rparr>))
            else Inr st) of
        Inl e \<Rightarrow> Inl e
      | Inr st1 \<Rightarrow>
          (case meth of
             Apriori \<Rightarrow> step_apriori data thrd (len + 1) st1
           | Position \<Rightarrow> step_position thrd (len + 1) st1
           | Hybrid \<Rightarrow>
               if use_apriori st1 then step_apriori data thrd (len + 1) st1
               else step_position thrd (len + 1) st1))"

function loop ::
  "string list \<Rightarrow> nat \<Rightarrow> int \<Rightarrow> mining_method \<Rightarrow> nat \<Rightarrow> state \<Rightarrow> error \<times> nat option + state" where
  "loop data max_len thrd meth len st =
     (if len < max_len
      then (case iteration data thrd meth len st of
              Inl e \<Rightarrow> Inl e
            | Inr st1 \<Rightarrow> loop data max_len thrd meth (len + 1) st1)
      else Inr st)"
  by pat_completeness auto
termination
  by (relation "measure (\<lambda>(data, max_len, thrd, meth, len, st). max_len - len)") auto

definition frequent_patterns ::
  "string list \<Rightarrow> nat \<Rightarrow> nat \<Rightarrow> int \<Rightarrow> nat option \<Rightarrow> mining_method
   \<Rightarrow> error \<times> nat option + (string \<times> int) list \<times> nat option" where
  "frequent_patterns data min_len max_len thrd counter meth =
     (let st0 = \<lparr>tree_of = initialized_tree data min_len, queue_of = [], use_apriori = True,
                 counter_of = increment counter\<rparr>
      in (case (if meth = Position
                then (if MAX_SIZE < number_of_freq_subseq (tree_of st0) min_len thrd
                      then Inl (ExceedAllocatedMemory, counter_of st0)
                      else prepare_position data thrd min_len st0)
                else Inr st0) of
            Inl e \<Rightarrow> Inl e
          | Inr st1 \<Rightarrow>
              (case loop data max_len thrd meth min_len st1 of
                 Inl e \<Rightarrow> Inl e
               | Inr st2 \<Rightarrow> Inr (all_patterns_at_least (tree_of st2) thrd, counter_of st2))))"
section \<open>Observations of a trie\<close>

text \<open>
  What can be seen of the node at a path: whether it is there, and its \<open>count\<close>, \<open>idx\<close>
  and \<open>seq\<close> attributes.
\<close>

definition present :: "tree \<Rightarrow> string \<Rightarrow> bool" where
  "present t w = (case pattern t w of Inl _ \<Rightarrow> False | Inr _ \<Rightarrow> True)"

definition count_at :: "tree \<Rightarrow> string \<Rightarrow> int option" where
  "count_at t w = (case pattern t w of Inl _ \<Rightarrow> None | Inr node \<Rightarrow> count node)"

definition idx_at :: "tree \<Rightarrow> string \<Rightarrow> nat option" where
  "idx_at t w = (case pattern t w of Inl _ \<Rightarrow> None | Inr node \<Rightarrow> idx node)"

definition seq_at :: "tree \<Rightarrow> string \<Rightarrow> string option" where
  "seq_at t w = (case pattern t w of Inl _ \<Rightarrow> None | Inr node \<Rightarrow> Some (seq node))"

text \<open>The order of queue records by \<open>(sequence ID, position)\<close>; the pattern index plays no part.\<close>

definition rec_less :: "qrec \<Rightarrow> qrec \<Rightarrow> bool" where
  "rec_less a b = (fst a < fst b \<or> (fst a = fst b \<and> fst (snd a) < fst (snd b)))"

text \<open>
  The number of A-priori extensions that a hybrid run still in A-priori mode performs from
  length \<open>len\<close> on: it extends by \<open>run_apriori\<close> for as long as the number of frequent
  occurrences at the current length exceeds \<open>MAX_SIZE\<close> and the maximum length is not
  reached.
\<close>

function apriori_extensions :: "string list \<Rightarrow> int \<Rightarrow> nat \<Rightarrow> nat \<Rightarrow> tree \<Rightarrow> nat" where
  "apriori_extensions data thrd len max_len tree =
     (if len < max_len \<and> MAX_SIZE < number_of_freq_subseq tree len thrd
      then Suc (apriori_extensions data thrd (len + 1) max_len (run_apriori data tree (len + 1) thrd))
      else 0)"
  by pat_completeness auto
termination
  by (relation "measure (\<lambda>(data, thrd, len, max_len, tree). max_len - len)") auto

text \<open>
  A small corpus for concrete instances: the sequence \<open>ACAC\<close>, its trie at length \<open>1\<close>
  with the indices assigned for threshold \<open>2\<close>, and the queue built from it.
\<close>

definition example_data :: "string list" where
  "example_data = [''ACAC'']"

definition example_tree :: tree where
  "example_tree = assign_pattern_index (initialized_tree example_data 1) 1 2"

definition example_queue :: "qrec list" where
  "example_queue = [(0, 0, 0), (0, 1, 1), (0, 2, 0), (0, 3, 1)]"

text \<open>
  The trie invariant of the specification: the \<open>seq\<close> of every node is the \<open>seq\<close> of the
  root followed by the path that leads to the node.
\<close>

definition spelled :: "tree \<Rightarrow> bool" where
  "spelled t = (\<forall>w node. pattern t w = Inr node \<longrightarrow> seq node = seq t @ w)"

text \<open>
  The windows of one length in the corpus, in the order of a pass, and the number of
  occurrences of a pattern: how many windows of its length equal it.
\<close>

definition windows :: "string list \<Rightarrow> nat \<Rightarrow> string list" where
  "windows data len = concat (map (\<lambda>sq. subsequences sq len) data)"

definition occ :: "string list \<Rightarrow> string \<Rightarrow> nat" where
  "occ data w = count_list (windows data (length w)) w"

text \<open>
  The candidate generation read off the counts. A pattern is frequent in a count function
  when it has a count that reaches the threshold. The candidates are the pairs of a frequent
  prefix path \<open>p\<close> and a nucleotide \<open>s\<close> whose join partner \<open>p[1:] + s\<close> is frequent too,
  prefixes in the order of the level's paths, nucleotides in the order of \<open>NUCLEOTIDES\<close>.
  \<open>node_of\<close> is the node at a path that exists.
\<close>

definition frequent_in :: "(string \<Rightarrow> int option) \<Rightarrow> int \<Rightarrow> string \<Rightarrow> bool" where
  "frequent_in f thrd w = (case f w of None \<Rightarrow> False | Some c \<Rightarrow> thrd \<le> c)"

definition cand_pairs :: "(string \<Rightarrow> int option) \<Rightarrow> int \<Rightarrow> string list \<Rightarrow> (string \<times> char) list" where
  "cand_pairs f thrd paths =
     concat (map (\<lambda>p. if frequent_in f thrd p
                       then map (\<lambda>s. (p, s)) (filter (\<lambda>s. frequent_in f thrd (tl p @ [s])) NUCLEOTIDES)
                       else [])
                 paths)"

definition node_of :: "tree \<Rightarrow> string \<Rightarrow> tree" where
  "node_of t p = (case pattern t p of Inl _ \<Rightarrow> t | Inr n \<Rightarrow> n)"

text \<open>
  The invariant of the trie when the lengths up to \<open>m\<close> have been processed: the nodes
  spell their paths, no path is longer than \<open>m\<close>, and every count that is present is the
  number of occurrences of the pattern, which is then positive. The candidates of length
  \<open>m + 1\<close> as a set, and the counts after the extension to length \<open>m + 1\<close>: a candidate
  that occurs gets its number of occurrences, everything else keeps what it had.
\<close>

definition trie_inv :: "string list \<Rightarrow> nat \<Rightarrow> tree \<Rightarrow> bool" where
  "trie_inv data m t \<longleftrightarrow>
     spelled t \<and> seq t = [] \<and> (\<forall>w. present t w \<longrightarrow> length w \<le> m) \<and>
     (\<forall>w c. count_at t w = Some c \<longrightarrow> c = int (occ data w) \<and> 0 < occ data w)"

definition cand_set :: "(string \<Rightarrow> int option) \<Rightarrow> int \<Rightarrow> nat \<Rightarrow> string set" where
  "cand_set f thrd m =
     {p @ [s] | p s. length p = m \<and> set p \<subseteq> set NUCLEOTIDES \<and> s \<in> set NUCLEOTIDES
                   \<and> frequent_in f thrd p \<and> frequent_in f thrd (tl p @ [s])}"

definition extend_counts ::
  "string list \<Rightarrow> int \<Rightarrow> nat \<Rightarrow> (string \<Rightarrow> int option) \<Rightarrow> string \<Rightarrow> int option" where
  "extend_counts data thrd m f w =
     (if w \<in> cand_set f thrd m \<and> 0 < occ data w then Some (int (occ data w)) else f w)"

text \<open>
  The queue that belongs to an index assignment \<open>g\<close> of the patterns of length \<open>m\<close>: one
  record for every window of the corpus that has an index, in the order of a pass. The
  output of the loop of \<open>run_position\<close> as a function of the queue alone: \<open>bridge\<close> is what
  one pair of neighbours contributes, \<open>joined\<close> follows the loop.
\<close>

definition queue_row :: "nat \<Rightarrow> (string \<Rightarrow> nat option) \<Rightarrow> nat \<Rightarrow> string \<Rightarrow> qrec list" where
  "queue_row m g ident sq =
     List.map_filter (\<lambda>pos. map_option (\<lambda>i. (ident, pos, i)) (g (take m (drop pos sq))))
                     [0..<length sq + 1 - m]"

definition queue_from :: "nat \<Rightarrow> string list \<Rightarrow> nat \<Rightarrow> (string \<Rightarrow> nat option) \<Rightarrow> qrec list" where
  "queue_from n data m g = concat (map (\<lambda>(ident, sq). queue_row m g ident sq) (enumerate n data))"

definition queue_spec :: "string list \<Rightarrow> nat \<Rightarrow> (string \<Rightarrow> nat option) \<Rightarrow> qrec list" where
  "queue_spec data m g = queue_from 0 data m g"

definition bridge :: "(nat \<times> nat \<rightharpoonup> nat) \<Rightarrow> qrec \<Rightarrow> qrec \<Rightarrow> qrec list" where
  "bridge im a b =
     (if fst b = fst a \<and> int (fst (snd b)) - int (fst (snd a)) = 1
      then (case im (snd (snd a), snd (snd b)) of
              None \<Rightarrow> []
            | Some c \<Rightarrow> [(fst a, fst (snd a), c)])
      else [])"

fun joined :: "(nat \<times> nat \<rightharpoonup> nat) \<Rightarrow> qrec \<Rightarrow> qrec list \<Rightarrow> qrec list" where
  "joined im cur [] = []"
| "joined im cur (nxt # rest) = bridge im cur nxt @ joined im nxt rest"

definition joined_list :: "(nat \<times> nat \<rightharpoonup> nat) \<Rightarrow> qrec list \<Rightarrow> qrec list" where
  "joined_list im q = (case q of [] \<Rightarrow> [] | first # rest \<Rightarrow> joined im first rest)"

text \<open>
  The index that the join gives a window one longer: the join map at the indices of its
  prefix and of its suffix.
\<close>

definition pair_idx :: "(nat \<times> nat \<rightharpoonup> nat) \<Rightarrow> (string \<Rightarrow> nat option) \<Rightarrow> nat \<Rightarrow> string \<Rightarrow> nat option" where
  "pair_idx im g m w =
     (case g (take m w) of
        None \<Rightarrow> None
      | Some i1 \<Rightarrow> (case g (drop 1 w) of None \<Rightarrow> None | Some i2 \<Rightarrow> im (i1, i2)))"

text \<open>One round of the loop of \<open>assign_pattern_index\<close>, on the pair of the tree and \<open>idx\<close>.\<close>

definition assign_step :: "int \<Rightarrow> string \<Rightarrow> tree \<times> nat \<Rightarrow> tree \<times> nat" where
  "assign_step thrd path = (\<lambda>(t, i).
     case pattern t path of
       Inl PatternNotFound \<Rightarrow> (t, i)
     | Inr node \<Rightarrow>
         if has_count_at_least node thrd then (store t path (set_idx node i), i + 1)
         else (t, i))"

text \<open>
  The invariant of the position engine at length \<open>m\<close>: every frequent pattern of length
  \<open>m\<close> over the alphabet has an index, no two patterns of length \<open>m\<close> share an index, and
  the queue is the queue of the trie's index assignment. A corpus is valid when its
  sequences are over the four nucleotides, the contract of the sequence provider.
\<close>

definition queue_inv :: "string list \<Rightarrow> int \<Rightarrow> nat \<Rightarrow> tree \<Rightarrow> qrec list \<Rightarrow> bool" where
  "queue_inv data thrd m t q \<longleftrightarrow>
     (\<forall>w. length w = m \<longrightarrow> set w \<subseteq> set NUCLEOTIDES \<longrightarrow> frequent_in (count_at t) thrd w
          \<longrightarrow> idx_at t w \<noteq> None) \<and>
     (\<forall>w v i. length w = m \<longrightarrow> length v = m \<longrightarrow> idx_at t w = Some i \<longrightarrow> idx_at t v = Some i
          \<longrightarrow> w = v) \<and>
     q = queue_spec data m (idx_at t)"

definition valid_corpus :: "string list \<Rightarrow> bool" where
  "valid_corpus data = (\<forall>sq \<in> set data. set sq \<subseteq> set NUCLEOTIDES)"

text \<open>
  The pieces of one call of \<open>run_position\<close> at length \<open>m + 1\<close>: the items that
  \<open>candidate_mappings\<close> yields when every node it reads has an index, and the trie and the
  two dictionaries that the loop over these items builds.
\<close>

definition cand_recs :: "tree \<Rightarrow> nat \<Rightarrow> int \<Rightarrow> (string \<times> (nat \<times> nat) \<times> nat) list" where
  "cand_recs t m thrd =
     map (\<lambda>(i, (p, s)). (p @ [s], (the (idx_at t p), the (idx_at t (tl p @ [s]))), i))
         (enumerate 0 (cand_pairs (count_at t) thrd (paths_at_level t m)))"

definition indexed :: "tree \<Rightarrow> nat \<Rightarrow> int \<Rightarrow> tree" where
  "indexed t m thrd = fold (\<lambda>x t. add t (fst x) None (Some (snd (snd x)))) (cand_recs t m thrd) t"

definition index_map_of :: "tree \<Rightarrow> nat \<Rightarrow> int \<Rightarrow> (nat \<times> nat \<rightharpoonup> nat)" where
  "index_map_of t m thrd =
     fold (\<lambda>x im. im(fst (snd x) \<mapsto> snd (snd x))) (cand_recs t m thrd) Map.empty"

definition pattern_d_of :: "tree \<Rightarrow> nat \<Rightarrow> int \<Rightarrow> (nat \<rightharpoonup> string)" where
  "pattern_d_of t m thrd =
     fold (\<lambda>x pd. pd(snd (snd x) \<mapsto> fst x)) (cand_recs t m thrd) Map.empty"

text \<open>
  The counts that the extensions from length \<open>len\<close> up to \<open>max_len\<close> produce, following the
  rounds of the controller's loop, and the invariant of the controller's state at length
  \<open>len\<close>: the trie invariant, and either the invariant of the position engine, when the run
  works on the queue, or a trie without any index.
\<close>

function extend_to ::
  "string list \<Rightarrow> int \<Rightarrow> nat \<Rightarrow> nat \<Rightarrow> (string \<Rightarrow> int option) \<Rightarrow> string \<Rightarrow> int option" where
  "extend_to data thrd len max_len f =
     (if len < max_len then extend_to data thrd (len + 1) max_len (extend_counts data thrd len f)
      else f)"
  by pat_completeness auto
termination
  by (relation "measure (\<lambda>(data, thrd, len, max_len, f). max_len - len)") auto

definition mode_inv :: "string list \<Rightarrow> int \<Rightarrow> mining_method \<Rightarrow> nat \<Rightarrow> state \<Rightarrow> bool" where
  "mode_inv data thrd meth len st \<longleftrightarrow>
     trie_inv data len (tree_of st) \<and>
     (if meth = Position \<or> (meth = Hybrid \<and> \<not> use_apriori st)
      then queue_inv data thrd len (tree_of st) (queue_of st)
      else (\<forall>w. idx_at (tree_of st) w = None))"

text \<open>
  The specification of the result. \<open>level_counts\<close> are the counts of the initial pass: every
  window of the minimum length with its number of occurrences. \<open>mined\<close> are the counts after
  the extensions up to the maximum length. \<open>positions\<close> are the places \<open>(id, off)\<close> where a
  pattern occurs in the corpus: the window of its length of sequence \<open>id\<close> at offset \<open>off\<close>
  exists and equals the pattern.
\<close>

definition level_counts :: "string list \<Rightarrow> nat \<Rightarrow> string \<Rightarrow> int option" where
  "level_counts data m w = (if length w = m \<and> 0 < occ data w then Some (int (occ data w)) else None)"

definition mined :: "string list \<Rightarrow> nat \<Rightarrow> nat \<Rightarrow> int \<Rightarrow> string \<Rightarrow> int option" where
  "mined data min_len max_len thrd = extend_to data thrd min_len max_len (level_counts data min_len)"

definition positions :: "string list \<Rightarrow> string \<Rightarrow> (nat \<times> nat) set" where
  "positions data w =
     {(i, off). i < length data \<and> off + length w \<le> length (data ! i)
                \<and> take (length w) (drop off (data ! i)) = w}"

section \<open>Loops that can raise\<close>

lemma collect_Inl: "collect f xs = Inl e \<Longrightarrow> \<exists>x \<in> set xs. f x = Inl e"
  by (induction xs) (auto split: sum.splits)

lemma collect_Inr:
  "collect f xs = Inr ys \<Longrightarrow>
   (\<forall>x \<in> set xs. \<exists>zs. f x = Inr zs) \<and>
   ys = concat (map (\<lambda>x. case f x of Inl _ \<Rightarrow> [] | Inr zs \<Rightarrow> zs) xs)"
  by (induction xs arbitrary: ys) (auto split: sum.splits)

lemma collect_all_Inr: "(\<forall>x \<in> set xs. f x = Inr (g x)) \<Longrightarrow> collect f xs = Inr (concat (map g xs))"
  by (induction xs) auto

section \<open>Lookup and in-place updates\<close>

declare loop.simps [simp del]

lemma pattern_Cons:
  "pattern t (nc # rest) =
     (case children t nc of None \<Rightarrow> Inl PatternNotFound | Some k \<Rightarrow> pattern k rest)"
  by (simp add: has_child_def child_def split: option.split)

declare pattern.simps(2) [simp del]
declare pattern_Cons [simp]

lemma children_set_child [simp]: "children (set_child t nc k) = (children t)(nc \<mapsto> k)"
  and seq_set_child [simp]: "seq (set_child t nc k) = seq t"
  and count_set_child [simp]: "count (set_child t nc k) = count t"
  and idx_set_child [simp]: "idx (set_child t nc k) = idx t"
  by (simp_all add: set_child_def)

lemma fields_set_count [simp]:
  "children (set_count t c) = children t" "seq (set_count t c) = seq t"
  "count (set_count t c) = Some c" "idx (set_count t c) = idx t"
  by (simp_all add: set_count_def)

lemma fields_set_idx [simp]:
  "children (set_idx t i) = children t" "seq (set_idx t i) = seq t"
  "count (set_idx t i) = count t" "idx (set_idx t i) = Some i"
  by (simp_all add: set_idx_def)

lemma pattern_store_same:
  "pattern t p = Inr n \<Longrightarrow> pattern (store t p v) p = Inr v"
  by (induction p arbitrary: t) (auto split: option.splits)

lemma pnf_all_eq: "(a :: pattern_not_found) = b"
  by (cases a; cases b; simp)

lemma pattern_Inl_iff: "pattern t w = Inl e \<longleftrightarrow> \<not> present t w"
  by (auto simp: present_def pnf_all_eq split: sum.splits)

lemma set_child_same: "children t nc = Some k \<Longrightarrow> set_child t nc k = t"
  by (cases t) (simp add: set_child_def map_upd_triv)

lemma present_Nil [simp]: "present t []"
  by (simp add: present_def)

lemma present_Cons [simp]:
  "present t (c # w) = (case children t c of None \<Rightarrow> False | Some k \<Rightarrow> present k w)"
  by (simp add: present_def split: option.splits)

lemma count_at_Nil [simp]: "count_at t [] = count t"
  and idx_at_Nil [simp]: "idx_at t [] = idx t"
  and seq_at_Nil [simp]: "seq_at t [] = Some (seq t)"
  by (simp_all add: count_at_def idx_at_def seq_at_def)

lemma count_at_Cons [simp]:
  "count_at t (c # w) = (case children t c of None \<Rightarrow> None | Some k \<Rightarrow> count_at k w)"
  by (simp add: count_at_def split: option.splits)

lemma idx_at_Cons [simp]:
  "idx_at t (c # w) = (case children t c of None \<Rightarrow> None | Some k \<Rightarrow> idx_at k w)"
  by (simp add: idx_at_def split: option.splits)

lemma seq_at_Cons [simp]:
  "seq_at t (c # w) = (case children t c of None \<Rightarrow> None | Some k \<Rightarrow> seq_at k w)"
  by (simp add: seq_at_def split: option.splits)

lemma store_frame:
  "pattern t p = Inr n \<Longrightarrow> children v = children n \<Longrightarrow> q \<noteq> p \<Longrightarrow>
   present (store t p v) q = present t q \<and> count_at (store t p v) q = count_at t q \<and>
   idx_at (store t p v) q = idx_at t q \<and> seq_at (store t p v) q = seq_at t q"
proof (induction p arbitrary: t q)
  case Nil
  then show ?case by (cases q) auto
next
  case (Cons c p)
  show ?case
  proof (cases q)
    case Nil
    with Cons.prems show ?thesis by (auto split: option.splits)
  next
    case (Cons d q')
    show ?thesis
    proof (cases "d = c")
      case True
      with Cons.prems Cons obtain k where k: "children t c = Some k" "pattern k p = Inr n" "q' \<noteq> p"
        by (auto split: option.splits)
      from Cons.IH[OF k(2) Cons.prems(2) k(3)] k True Cons show ?thesis by simp
    next
      case False
      with Cons.prems Cons show ?thesis by (auto split: option.splits)
    qed
  qed
qed

lemma store_absent: "pattern t p = Inl e \<Longrightarrow> store t p v = t"
  by (induction p arbitrary: t) (auto simp: set_child_same split: option.splits)


lemma increment_count_present:
  assumes "pattern t sq = Inr node"
  shows "pattern (increment_count t sq c) sq =
           Inr (set_count node (case count node of Some k \<Rightarrow> k + c | None \<Rightarrow> c))"
    and "v \<noteq> sq \<Longrightarrow> present (increment_count t sq c) v = present t v"
    and "v \<noteq> sq \<Longrightarrow> count_at (increment_count t sq c) v = count_at t v"
    and "v \<noteq> sq \<Longrightarrow> idx_at (increment_count t sq c) v = idx_at t v"
    and "v \<noteq> sq \<Longrightarrow> seq_at (increment_count t sq c) v = seq_at t v"
  using assms store_frame[OF assms, of "set_count node (case count node of Some k \<Rightarrow> k + c | None \<Rightarrow> c)" v]
  by (simp_all add: increment_count_def pattern_store_same)

lemma increment_count_absent:
  "pattern t sq = Inl e \<Longrightarrow> increment_count t sq c = t"
  by (cases e) (simp add: increment_count_def)

lemma all_patterns_at_least_count:
  "all_patterns_at_least t thrd =
     concat (map (\<lambda>node. case count node of None \<Rightarrow> []
                         | Some c \<Rightarrow> if thrd \<le> c then [(seq node, c)] else [])
                 (all_nodes t))"
  unfolding all_patterns_at_least_def has_count_at_least_def
  by (rule arg_cong[where f = concat], rule map_cong) (auto split: option.splits)

lemma count_at_increment_count:
  "pattern t sq = Inr node \<Longrightarrow>
   count_at (increment_count t sq d) sq = Some (case count node of Some k \<Rightarrow> k + d | None \<Rightarrow> d)"
  by (simp add: count_at_def increment_count_present(1))

section \<open>What \<open>add\<close> changes\<close>

lemma present_leaf [simp]: "present (Tree s c i (\<lambda>_. None)) w = (w = [])"
  by (cases w) simp_all

lemma count_at_leaf [simp]: "count_at (Tree s c i (\<lambda>_. None)) w = (if w = [] then c else None)"
  by (cases w) simp_all

lemma idx_at_leaf [simp]: "idx_at (Tree s c i (\<lambda>_. None)) w = (if w = [] then i else None)"
  by (cases w) simp_all

lemma count_at_absent: "\<not> present t w \<Longrightarrow> count_at t w = None"
  and idx_at_absent: "\<not> present t w \<Longrightarrow> idx_at t w = None"
  by (auto simp: present_def count_at_def idx_at_def split: sum.splits)

lemma present_add: "present (add t w c a) q \<longleftrightarrow> present t q \<or> prefix q w"
proof (induction w arbitrary: t q)
  case Nil
  then show ?case by (cases q) (auto split: option.splits)
next
  case (Cons x w)
  show ?case
  proof (cases q)
    case Nil
    then show ?thesis by simp
  next
    case (Cons d q')
    then show ?thesis
      using Cons.IH by (auto split: option.splits)
  qed
qed

lemma count_at_add:
  "count_at (add t w c a) q =
     (if q = w
      then (case c of None \<Rightarrow> count_at t w
            | Some d \<Rightarrow> Some (case count_at t w of None \<Rightarrow> d | Some k \<Rightarrow> k + d))
      else count_at t q)"
proof (induction w arbitrary: t q)
  case Nil
  then show ?case by (cases q) (auto split: option.splits)
next
  case (Cons x w)
  show ?case
  proof (cases q)
    case Nil
    then show ?thesis by simp
  next
    case (Cons d q')
    then show ?thesis
      using Cons.IH by (auto split: option.splits)
  qed
qed

lemma idx_at_add:
  "idx_at (add t w c a) q =
     (if q = w then (case a of None \<Rightarrow> idx_at t w | Some v \<Rightarrow> Some v) else idx_at t q)"
proof (induction w arbitrary: t q)
  case Nil
  then show ?case by (cases q) (auto split: option.splits)
next
  case (Cons x w)
  show ?case
  proof (cases q)
    case Nil
    then show ?thesis by simp
  next
    case (Cons d q')
    then show ?thesis
      using Cons.IH by (auto split: option.splits)
  qed
qed

lemma seq_add [simp]: "seq (add t w c a) = seq t"
  by (cases w) (auto split: option.splits)

lemma spelled_iff:
  "spelled t \<longleftrightarrow> (\<forall>c k. children t c = Some k \<longrightarrow> seq k = seq t @ [c] \<and> spelled k)"
proof
  assume s: "spelled t"
  show "\<forall>c k. children t c = Some k \<longrightarrow> seq k = seq t @ [c] \<and> spelled k"
  proof (intro allI impI)
    fix c k
    assume k: "children t c = Some k"
    then have "pattern t [c] = Inr k" by simp
    with s have sk: "seq k = seq t @ [c]" unfolding spelled_def by blast
    have "spelled k"
      unfolding spelled_def
    proof (intro allI impI)
      fix w node
      assume "pattern k w = Inr node"
      with k have "pattern t (c # w) = Inr node" by simp
      with s have "seq node = seq t @ c # w" unfolding spelled_def by blast
      with sk show "seq node = seq k @ w" by simp
    qed
    with sk show "seq k = seq t @ [c] \<and> spelled k" ..
  qed
next
  assume r: "\<forall>c k. children t c = Some k \<longrightarrow> seq k = seq t @ [c] \<and> spelled k"
  show "spelled t"
    unfolding spelled_def
  proof (intro allI impI)
    fix w node
    assume p: "pattern t w = Inr node"
    show "seq node = seq t @ w"
    proof (cases w)
      case Nil
      with p show ?thesis by simp
    next
      case (Cons c w')
      with p obtain k where k: "children t c = Some k" "pattern k w' = Inr node"
        by (auto split: option.splits)
      with r have "seq k = seq t @ [c]" "spelled k" by auto
      with k Cons show ?thesis unfolding spelled_def by auto
    qed
  qed
qed

lemma spelled_leaf [simp]: "spelled (Tree s c i (\<lambda>_. None))"
  by (subst spelled_iff) simp

lemma spelled_same_children:
  assumes "children t' = children t" "seq t' = seq t"
  shows "spelled t' = spelled t"
proof -
  have "(pattern t' w = Inr node \<longrightarrow> seq node = seq t' @ w)
        = (pattern t w = Inr node \<longrightarrow> seq node = seq t @ w)" for w node
    using assms by (cases w) auto
  then show ?thesis unfolding spelled_def by simp
qed

lemma spelled_set_count [simp]: "spelled (set_count t c) = spelled t"
  and spelled_set_idx [simp]: "spelled (set_idx t i) = spelled t"
  by (rule spelled_same_children; simp)+

lemma spelled_set_child:
  assumes "spelled t" "spelled k" "seq k = seq t @ [x]"
  shows "spelled (set_child t x k)"
proof -
  from assms(1) have "\<forall>c k'. children t c = Some k' \<longrightarrow> seq k' = seq t @ [c] \<and> spelled k'"
    by (subst (asm) spelled_iff)
  with assms(2,3)
  have "\<forall>c k'. children (set_child t x k) c = Some k' \<longrightarrow>
          seq k' = seq (set_child t x k) @ [c] \<and> spelled k'"
    by simp
  then show ?thesis by (simp only: spelled_iff[of "set_child t x k"])
qed

lemma spelled_child: "spelled t \<Longrightarrow> children t c = Some k \<Longrightarrow> seq k = seq t @ [c] \<and> spelled k"
  by (subst (asm) spelled_iff) blast

lemma spelled_add: "spelled t \<Longrightarrow> spelled (add t w c a)"
proof (induction w arbitrary: t)
  case Nil
  then show ?case by (simp split: option.splits)
next
  case (Cons x w)
  let ?k = "case children t x of None \<Rightarrow> Tree (seq t @ [x]) None None (\<lambda>_. None) | Some k \<Rightarrow> k"
  from Cons.prems have k: "spelled ?k" "seq ?k = seq t @ [x]"
    by (auto dest: spelled_child split: option.splits)
  have "spelled (set_child t x (add ?k w c a))"
    using Cons.prems Cons.IH[OF k(1)] k(2) by (intro spelled_set_child) simp_all
  then show ?case by (simp only: add.simps Let_def)
qed

section \<open>What the passes over the corpus change\<close>

lemma store_obs:
  assumes "pattern t p = Inr n" "children v = children n" "seq v = seq n"
  shows "present (store t p v) q = present t q"
    and "seq_at (store t p v) q = seq_at t q"
    and "count_at (store t p v) q = (if q = p then count v else count_at t q)"
    and "idx_at (store t p v) q = (if q = p then idx v else idx_at t q)"
proof -
  have same: "pattern (store t p v) p = Inr v"
    using assms(1) by (rule pattern_store_same)
  note fr = store_frame[OF assms(1,2), of q]
  show "present (store t p v) q = present t q"
    using fr same assms(1) by (cases "q = p") (simp_all add: present_def)
  show "seq_at (store t p v) q = seq_at t q"
    using fr same assms(1,3) by (cases "q = p") (simp_all add: seq_at_def)
  show "count_at (store t p v) q = (if q = p then count v else count_at t q)"
    using fr same by (cases "q = p") (simp_all add: count_at_def)
  show "idx_at (store t p v) q = (if q = p then idx v else idx_at t q)"
    using fr same by (cases "q = p") (simp_all add: idx_at_def)
qed

lemma spelled_seq_at:
  "spelled t \<longleftrightarrow> (\<forall>w s. seq_at t w = Some s \<longrightarrow> s = seq t @ w)"
  unfolding spelled_def seq_at_def by (auto split: sum.splits)

lemma seq_at_root: "seq_at t [] = seq_at t' [] \<longleftrightarrow> seq t = seq t'"
  by simp

lemma spelled_same_seq_at:
  "(\<And>w. seq_at t' w = seq_at t w) \<Longrightarrow> spelled t' = spelled t"
proof -
  assume a: "\<And>w. seq_at t' w = seq_at t w"
  from a[of "[]"] have "seq t' = seq t" by simp
  with a show ?thesis by (simp add: spelled_seq_at)
qed

lemma obs_Inr:
  assumes "pattern t w = Inr n"
  shows "present t w" "count_at t w = count n" "idx_at t w = idx n" "seq_at t w = Some (seq n)"
  using assms by (simp_all add: present_def count_at_def idx_at_def seq_at_def)

lemma increment_count_Inr:
  "pattern t w = Inr n \<Longrightarrow>
   increment_count t w d
     = store t w (set_count n (case count n of Some k \<Rightarrow> k + d | None \<Rightarrow> d))"
  by (simp add: increment_count_def)

lemma increment_count_obs:
  "present (increment_count t w d) q = present t q"
  "seq_at (increment_count t w d) q = seq_at t q"
  "idx_at (increment_count t w d) q = idx_at t q"
  "count_at (increment_count t w d) q =
     (if q = w \<and> present t w then Some (case count_at t w of None \<Rightarrow> d | Some k \<Rightarrow> k + d)
      else count_at t q)"
proof -
  show "present (increment_count t w d) q = present t q"
  proof (cases "pattern t w")
    case (Inl e)
    then show ?thesis by (simp add: increment_count_absent)
  next
    case (Inr n)
    then show ?thesis by (simp add: increment_count_Inr store_obs)
  qed
  show "seq_at (increment_count t w d) q = seq_at t q"
  proof (cases "pattern t w")
    case (Inl e)
    then show ?thesis by (simp add: increment_count_absent)
  next
    case (Inr n)
    then show ?thesis by (simp add: increment_count_Inr store_obs)
  qed
  show "idx_at (increment_count t w d) q = idx_at t q"
  proof (cases "pattern t w")
    case (Inl e)
    then show ?thesis by (simp add: increment_count_absent)
  next
    case (Inr n)
    then show ?thesis by (simp add: increment_count_Inr store_obs obs_Inr)
  qed
  show "count_at (increment_count t w d) q =
     (if q = w \<and> present t w then Some (case count_at t w of None \<Rightarrow> d | Some k \<Rightarrow> k + d)
      else count_at t q)"
  proof (cases "pattern t w")
    case (Inl e)
    then show ?thesis by (simp add: increment_count_absent present_def)
  next
    case (Inr n)
    then show ?thesis
      by (auto simp: increment_count_Inr store_obs obs_Inr split: option.splits)
  qed
qed

lemma spelled_increment_count [simp]: "spelled (increment_count t w d) = spelled t"
  by (rule spelled_same_seq_at) (rule increment_count_obs)

lemma seq_increment_count [simp]: "seq (increment_count t w d) = seq t"
  using increment_count_obs(2)[of t w d "[]"] by simp

lemma fold_concat: "fold f (concat xss) = fold (\<lambda>xs. fold f xs) xss"
  by (induction xss) simp_all

lemma initialized_tree_windows:
  "initialized_tree data len
     = fold (\<lambda>w t. add t w (Some 1) None) (windows data len) (Tree [] None None (\<lambda>_. None))"
  by (simp add: initialized_tree_def windows_def fold_concat fold_map comp_def)

lemma run_apriori_windows:
  "run_apriori data t len thrd
     = fold (\<lambda>w t. increment_count t w 1) (windows data len)
         (fold (\<lambda>sq t. add t sq None None) (candidates t len thrd) t)"
  by (simp add: run_apriori_def windows_def fold_concat fold_map comp_def)

lemma fold_add_count:
  "present (fold (\<lambda>w t. add t w (Some 1) None) ws t) q \<longleftrightarrow> present t q \<or> (\<exists>w \<in> set ws. prefix q w)"
  "count_at (fold (\<lambda>w t. add t w (Some 1) None) ws t) q =
     (if q \<in> set ws
      then Some (int (count_list ws q) + (case count_at t q of None \<Rightarrow> 0 | Some k \<Rightarrow> k))
      else count_at t q)"
  "idx_at (fold (\<lambda>w t. add t w (Some 1) None) ws t) q = idx_at t q"
  "seq (fold (\<lambda>w t. add t w (Some 1) None) ws t) = seq t"
  "spelled t \<Longrightarrow> spelled (fold (\<lambda>w t. add t w (Some 1) None) ws t)"
proof (induction ws arbitrary: t)
  case Nil
  { case 1 show ?case by simp }
  { case 2 show ?case by simp }
  { case 3 show ?case by simp }
  { case 4 show ?case by simp }
  { case 5 then show ?case by simp }
next
  case (Cons x ws)
  { case 1 show ?case by (auto simp: Cons.IH(1) present_add) }
  { case 2 show ?case
      by (auto simp: Cons.IH(2) count_at_add count_list_0_iff split: option.splits) }
  { case 3 show ?case by (simp add: Cons.IH(3) idx_at_add) }
  { case 4 show ?case by (simp add: Cons.IH(4)) }
  { case 5 then show ?case by (simp add: Cons.IH(5) spelled_add) }
qed

lemma fold_add_plain:
  "present (fold (\<lambda>w t. add t w None None) ws t) q \<longleftrightarrow> present t q \<or> (\<exists>w \<in> set ws. prefix q w)"
  "count_at (fold (\<lambda>w t. add t w None None) ws t) q = count_at t q"
  "idx_at (fold (\<lambda>w t. add t w None None) ws t) q = idx_at t q"
  "seq (fold (\<lambda>w t. add t w None None) ws t) = seq t"
  "spelled t \<Longrightarrow> spelled (fold (\<lambda>w t. add t w None None) ws t)"
proof (induction ws arbitrary: t)
  case Nil
  { case 1 show ?case by simp }
  { case 2 show ?case by simp }
  { case 3 show ?case by simp }
  { case 4 show ?case by simp }
  { case 5 then show ?case by simp }
next
  case (Cons x ws)
  { case 1 show ?case by (auto simp: Cons.IH(1) present_add) }
  { case 2 show ?case by (simp add: Cons.IH(2) count_at_add) }
  { case 3 show ?case by (simp add: Cons.IH(3) idx_at_add) }
  { case 4 show ?case by (simp add: Cons.IH(4)) }
  { case 5 then show ?case by (simp add: Cons.IH(5) spelled_add) }
qed

lemma fold_increment_count:
  "present (fold (\<lambda>w t. increment_count t w 1) ws t) q = present t q"
  "idx_at (fold (\<lambda>w t. increment_count t w 1) ws t) q = idx_at t q"
  "seq (fold (\<lambda>w t. increment_count t w 1) ws t) = seq t"
  "spelled (fold (\<lambda>w t. increment_count t w 1) ws t) = spelled t"
  "count_at (fold (\<lambda>w t. increment_count t w 1) ws t) q =
     (if q \<in> set ws \<and> present t q
      then Some (int (count_list ws q) + (case count_at t q of None \<Rightarrow> 0 | Some k \<Rightarrow> k))
      else count_at t q)"
proof (induction ws arbitrary: t)
  case Nil
  { case 1 show ?case by simp }
  { case 2 show ?case by simp }
  { case 3 show ?case by simp }
  { case 4 show ?case by simp }
  { case 5 show ?case by simp }
next
  case (Cons x ws)
  { case 1 show ?case by (simp add: Cons.IH(1) increment_count_obs) }
  { case 2 show ?case by (simp add: Cons.IH(2) increment_count_obs) }
  { case 3 show ?case by (simp add: Cons.IH(3)) }
  { case 4 show ?case by (simp add: Cons.IH(4)) }
  { case 5 show ?case
      by (auto simp: Cons.IH(5) increment_count_obs count_list_0_iff split: option.splits) }
qed

section \<open>The traversals of the trie\<close>

lemma pattern_append:
  "pattern t (u @ v) = (case pattern t u of Inl e \<Rightarrow> Inl e | Inr n \<Rightarrow> pattern n v)"
  by (induction u arbitrary: t) (auto split: option.splits)

lemma present_prefix: "present t w \<Longrightarrow> prefix u w \<Longrightarrow> present t u"
  by (auto simp: prefix_def present_def pattern_append split: sum.splits)

lemma concat_map_concat:
  "concat (map f (concat (map g xs))) = concat (map (\<lambda>x. concat (map f (g x))) xs)"
  by (induction xs) simp_all

lemma set_concat_case:
  "set (concat (map (\<lambda>nc. case g nc of None \<Rightarrow> [] | Some k \<Rightarrow> f nc k) xs))
     = {x. \<exists>nc k. nc \<in> set xs \<and> g nc = Some k \<and> x \<in> set (f nc k)}"
proof -
  have e: "set (case g nc of None \<Rightarrow> [] | Some k \<Rightarrow> f nc k)
             = {x. \<exists>k. g nc = Some k \<and> x \<in> set (f nc k)}" for nc
    by (cases "g nc") auto
  have "set (concat (map (\<lambda>nc. case g nc of None \<Rightarrow> [] | Some k \<Rightarrow> f nc k) xs))
          = (\<Union>nc \<in> set xs. set (case g nc of None \<Rightarrow> [] | Some k \<Rightarrow> f nc k))"
    by (simp only: set_concat set_map image_image)
  then show ?thesis
    unfolding e by blast
qed

lemma nodes_at_level_Suc:
  "nodes_at_level t (Suc m)
     = concat (map (\<lambda>nc. case children t nc of None \<Rightarrow> [] | Some k \<Rightarrow> nodes_at_level k m)
                   NUCLEOTIDES)"
proof -
  have "(\<lambda>nc. concat (map (\<lambda>k. nodes_at_level k m)
                          (case children t nc of None \<Rightarrow> [] | Some k \<Rightarrow> [k])))
        = (\<lambda>nc. case children t nc of None \<Rightarrow> [] | Some k \<Rightarrow> nodes_at_level k m)"
    by (auto split: option.splits)
  then show ?thesis
    by (simp add: all_children_def concat_map_concat)
qed

lemma nodes_paths:
  "map Inr (nodes_at_level t m) = map (pattern t) (paths_at_level t m)"
proof (induction m arbitrary: t)
  case 0
  then show ?case by simp
next
  case (Suc m)
  have "map Inr (case children t nc of None \<Rightarrow> [] | Some k \<Rightarrow> nodes_at_level k m)
        = map (pattern t) (case children t nc of None \<Rightarrow> []
                            | Some k \<Rightarrow> map ((#) nc) (paths_at_level k m))" for nc
    using Suc.IH by (auto split: option.splits simp: comp_def)
  then show ?case
    by (simp only: nodes_at_level_Suc paths_at_level.simps map_concat map_map comp_def)
qed

lemma set_paths_at_level:
  "set (paths_at_level t m)
     = {w. length w = m \<and> set w \<subseteq> set NUCLEOTIDES \<and> present t w}"
proof (induction m arbitrary: t)
  case 0
  then show ?case by auto
next
  case (Suc m)
  show ?case
  proof (intro set_eqI iffI)
    fix w
    assume "w \<in> set (paths_at_level t (Suc m))"
    then obtain nc k w' where "nc \<in> set NUCLEOTIDES" "children t nc = Some k"
      "w = nc # w'" "w' \<in> set (paths_at_level k m)"
      unfolding paths_at_level.simps set_concat_case by auto
    with Suc.IH[of k] show "w \<in> {w. length w = Suc m \<and> set w \<subseteq> set NUCLEOTIDES \<and> present t w}"
      by auto
  next
    fix w
    assume "w \<in> {w. length w = Suc m \<and> set w \<subseteq> set NUCLEOTIDES \<and> present t w}"
    then obtain nc w' k where w: "w = nc # w'" "length w' = m" "nc \<in> set NUCLEOTIDES"
      "set w' \<subseteq> set NUCLEOTIDES" "children t nc = Some k" "present k w'"
      by (cases w) (auto split: option.splits)
    with Suc.IH[of k] have "w' \<in> set (paths_at_level k m)" by simp
    with w show "w \<in> set (paths_at_level t (Suc m))"
      unfolding paths_at_level.simps set_concat_case by auto
  qed
qed

lemma distinct_concat_map:
  "distinct xs \<Longrightarrow> (\<And>x. x \<in> set xs \<Longrightarrow> distinct (f x)) \<Longrightarrow>
   (\<And>x y. x \<in> set xs \<Longrightarrow> y \<in> set xs \<Longrightarrow> x \<noteq> y \<Longrightarrow> set (f x) \<inter> set (f y) = {}) \<Longrightarrow>
   distinct (concat (map f xs))"
proof (induction xs)
  case Nil
  then show ?case by simp
next
  case (Cons x xs)
  from Cons.prems have "distinct (concat (map f xs))"
    by (intro Cons.IH) auto
  moreover from Cons.prems have "distinct (f x)" by simp
  moreover from Cons.prems have "\<forall>y \<in> set xs. set (f x) \<inter> set (f y) = {}"
    by auto
  ultimately show ?case by auto
qed

lemma distinct_NUCLEOTIDES: "distinct NUCLEOTIDES"
  by (simp add: NUCLEOTIDES_def)

lemma distinct_paths_at_level: "distinct (paths_at_level t m)"
proof (induction m arbitrary: t)
  case 0
  then show ?case by simp
next
  case (Suc m)
  show ?case
    unfolding paths_at_level.simps
  proof (rule distinct_concat_map[OF distinct_NUCLEOTIDES])
    fix x
    show "distinct (case children t x of None \<Rightarrow> [] | Some k \<Rightarrow> map ((#) x) (paths_at_level k m))"
      using Suc.IH by (auto split: option.splits simp: distinct_map)
  next
    fix x y :: char
    assume "x \<noteq> y"
    then show "set (case children t x of None \<Rightarrow> [] | Some k \<Rightarrow> map ((#) x) (paths_at_level k m))
          \<inter> set (case children t y of None \<Rightarrow> [] | Some k \<Rightarrow> map ((#) y) (paths_at_level k m)) = {}"
      by (auto split: option.splits)
  qed
qed

lemma all_nodes_eq:
  "all_nodes t = t # concat (map all_nodes (all_children t))"
proof (cases t)
  case (Tree s c i ch)
  have "(\<lambda>nc. concat (map all_nodes (case ch nc of None \<Rightarrow> [] | Some k \<Rightarrow> [k])))
        = (\<lambda>nc. case map_option all_nodes (ch nc) of None \<Rightarrow> [] | Some ns \<Rightarrow> ns)"
    by (auto split: option.splits)
  with Tree show ?thesis
    by (simp add: all_children_def concat_map_concat)
qed

lemma all_nodes_sound:
  "n \<in> set (all_nodes t) \<Longrightarrow> \<exists>w. set w \<subseteq> set NUCLEOTIDES \<and> pattern t w = Inr n"
proof (induction t arbitrary: n)
  case (Tree s c i ch)
  show ?case
  proof (cases "n = Tree s c i ch")
    case True
    then have "set [] \<subseteq> set NUCLEOTIDES \<and> pattern (Tree s c i ch) [] = Inr n" by simp
    then show ?thesis by blast
  next
    case False
    have "(\<lambda>nc. case map_option all_nodes (ch nc) of None \<Rightarrow> [] | Some ns \<Rightarrow> ns)
            = (\<lambda>nc. case ch nc of None \<Rightarrow> [] | Some k \<Rightarrow> all_nodes k)"
      by (auto split: option.splits)
    with False Tree.prems
    obtain nc k where k: "nc \<in> set NUCLEOTIDES" "ch nc = Some k" "n \<in> set (all_nodes k)"
      by (auto simp: set_concat_case simp del: set_concat)
    from k(2) have "Some k \<in> range ch" by (metis rangeI)
    from Tree.IH[OF this _ k(3)] obtain w where "set w \<subseteq> set NUCLEOTIDES" "pattern k w = Inr n"
      by auto
    with k have "set (nc # w) \<subseteq> set NUCLEOTIDES \<and> pattern (Tree s c i ch) (nc # w) = Inr n"
      by simp
    then show ?thesis by blast
  qed
qed

lemma all_nodes_complete:
  "set w \<subseteq> set NUCLEOTIDES \<Longrightarrow> pattern t w = Inr n \<Longrightarrow> n \<in> set (all_nodes t)"
proof (induction w arbitrary: t)
  case Nil
  then show ?case by (cases t) auto
next
  case (Cons x w)
  from Cons.prems obtain k where k: "children t x = Some k" "pattern k w = Inr n"
    by (auto split: option.splits)
  with Cons have "n \<in> set (all_nodes k)" by simp
  with k Cons.prems(1) have "n \<in> set (concat (map all_nodes (all_children t)))"
    by (auto simp: all_children_def intro!: bexI[of _ x])
  then show ?case by (subst all_nodes_eq) simp
qed

lemma set_all_nodes:
  "set (all_nodes t) = {n. \<exists>w. set w \<subseteq> set NUCLEOTIDES \<and> pattern t w = Inr n}"
  using all_nodes_sound all_nodes_complete by blast

section \<open>The candidate generators\<close>

lemma nodes_at_level_node_of:
  "nodes_at_level t m = map (node_of t) (paths_at_level t m)"
proof -
  have "map (case_sum (\<lambda>_. t) id)
          (map (Inr :: tree \<Rightarrow> pattern_not_found + tree) (nodes_at_level t m))
        = map (case_sum (\<lambda>_. t) id) (map (pattern t) (paths_at_level t m))"
    by (rule arg_cong[OF nodes_paths])
  then show ?thesis
    by (simp add: comp_def node_of_def id_def)
qed

lemma has_count_at_least_node:
  "pattern t p = Inr n \<Longrightarrow> has_count_at_least n thrd = frequent_in (count_at t) thrd p"
  by (simp add: has_count_at_least_def frequent_in_def count_at_def)

lemma frequent_in_present: "frequent_in (count_at t) thrd p \<Longrightarrow> present t p"
  by (auto simp: frequent_in_def count_at_def present_def split: sum.splits option.splits)

lemma spelled_node: "spelled t \<Longrightarrow> seq t = [] \<Longrightarrow> pattern t p = Inr n \<Longrightarrow> seq n = p"
  by (auto simp: spelled_def)

lemma concat_map_if_singleton:
  "concat (map (\<lambda>x. if P x then [g x] else []) xs) = map g (filter P xs)"
  by (induction xs) simp_all

lemma last_char_snoc: "drop (length (u @ [s]) - 1) (u @ [s]) = [s]"
  by simp

lemma children_of_intersection:
  assumes "pattern t u = Inr node_i"
  shows "concat (map (\<lambda>node_s. if has_count_at_least node_s thrd then [pay node_s] else [])
                     (all_children node_i))
         = map (\<lambda>s. pay (node_of t (u @ [s])))
               (filter (\<lambda>s. frequent_in (count_at t) thrd (u @ [s])) NUCLEOTIDES)"
proof -
  have e: "concat (map (\<lambda>node_s. if has_count_at_least node_s thrd then [pay node_s] else [])
                       (case children node_i nc of None \<Rightarrow> [] | Some k \<Rightarrow> [k]))
           = (if frequent_in (count_at t) thrd (u @ [nc]) then [pay (node_of t (u @ [nc]))] else [])"
    for nc
  proof (cases "children node_i nc")
    case None
    with assms have "pattern t (u @ [nc]) = Inl PatternNotFound"
      by (simp add: pattern_append)
    then have "\<not> frequent_in (count_at t) thrd (u @ [nc])"
      by (simp add: frequent_in_def count_at_def)
    with None show ?thesis by simp
  next
    case (Some k)
    with assms have k: "pattern t (u @ [nc]) = Inr k"
      by (simp add: pattern_append)
    then have "node_of t (u @ [nc]) = k" by (simp add: node_of_def)
    with Some has_count_at_least_node[OF k] show ?thesis by simp
  qed
  show ?thesis
    unfolding all_children_def concat_map_concat e
    by (rule concat_map_if_singleton)
qed

lemma no_intersection:
  assumes "pattern t u = Inl e"
  shows "filter (\<lambda>s. frequent_in (count_at t) thrd (u @ [s])) xs = []"
proof -
  have "\<not> frequent_in (count_at t) thrd (u @ [s])" for s
    using assms by (simp add: frequent_in_def count_at_def pattern_append)
  then show ?thesis by simp
qed

lemma generator_pairs:
  assumes "spelled t" "seq t = []"
  shows "concat (map (\<lambda>node_p.
             if has_count_at_least node_p thrd
             then (case pattern t (tl (seq node_p)) of
                     Inl PatternNotFound \<Rightarrow> []
                   | Inr node_i \<Rightarrow>
                       concat (map (\<lambda>node_s.
                            if has_count_at_least node_s thrd
                            then [pay node_p node_s]
                            else [])
                          (all_children node_i)))
             else [])
           (nodes_at_level t m))
         = map (\<lambda>(p, s). pay (node_of t p) (node_of t (tl p @ [s])))
               (cand_pairs (count_at t) thrd (paths_at_level t m))"
proof -
  have one: "(let node_p = node_of t p in
              if has_count_at_least node_p thrd
              then (case pattern t (tl (seq node_p)) of
                     Inl PatternNotFound \<Rightarrow> []
                   | Inr node_i \<Rightarrow>
                       concat (map (\<lambda>node_s.
                            if has_count_at_least node_s thrd
                            then [pay node_p node_s]
                            else [])
                          (all_children node_i)))
              else [])
            = map (\<lambda>(p, s). pay (node_of t p) (node_of t (tl p @ [s])))
                (if frequent_in (count_at t) thrd p
                 then map (\<lambda>s. (p, s))
                        (filter (\<lambda>s. frequent_in (count_at t) thrd (tl p @ [s])) NUCLEOTIDES)
                 else [])"
    if "p \<in> set (paths_at_level t m)" for p
  proof -
    from that have "present t p" by (simp add: set_paths_at_level)
    then obtain n where n: "pattern t p = Inr n"
      by (auto simp: present_def split: sum.splits)
    then have no: "node_of t p = n" by (simp add: node_of_def)
    from spelled_node[OF assms n] have sq: "seq n = p" .
    show ?thesis
    proof (cases "frequent_in (count_at t) thrd p")
      case False
      with has_count_at_least_node[OF n] no show ?thesis by simp
    next
      case True
      with has_count_at_least_node[OF n] have hc: "has_count_at_least n thrd" by simp
      show ?thesis
      proof (cases "pattern t (tl p)")
        case (Inl e)
        with hc True no sq no_intersection[OF Inl] show ?thesis
          by (cases e) simp
      next
        case (Inr node_i)
        with hc True no sq children_of_intersection[OF Inr, of thrd "pay n"] show ?thesis
          by (simp add: comp_def)
      qed
    qed
  qed
  have "concat (map (\<lambda>node_p.
             if has_count_at_least node_p thrd
             then (case pattern t (tl (seq node_p)) of
                     Inl PatternNotFound \<Rightarrow> []
                   | Inr node_i \<Rightarrow>
                       concat (map (\<lambda>node_s.
                            if has_count_at_least node_s thrd
                            then [pay node_p node_s]
                            else [])
                          (all_children node_i)))
             else [])
           (nodes_at_level t m))
        = concat (map (\<lambda>p. map (\<lambda>(p, s). pay (node_of t p) (node_of t (tl p @ [s])))
                (if frequent_in (count_at t) thrd p
                 then map (\<lambda>s. (p, s))
                        (filter (\<lambda>s. frequent_in (count_at t) thrd (tl p @ [s])) NUCLEOTIDES)
                 else [])) (paths_at_level t m))"
    unfolding nodes_at_level_node_of map_map comp_def
    by (rule arg_cong[where f = concat], rule map_cong[OF refl]) (use one in \<open>simp add: Let_def\<close>)
  then show ?thesis
    by (simp add: cand_pairs_def map_concat comp_def)
qed

lemma cand_pairs_mem:
  "(p, s) \<in> set (cand_pairs f thrd paths) \<longleftrightarrow>
     p \<in> set paths \<and> frequent_in f thrd p \<and> s \<in> set NUCLEOTIDES \<and> frequent_in f thrd (tl p @ [s])"
  by (auto simp: cand_pairs_def)

lemma distinct_cand_pairs: "distinct paths \<Longrightarrow> distinct (cand_pairs f thrd paths)"
  unfolding cand_pairs_def
  by (rule distinct_concat_map) (auto simp: distinct_map distinct_NUCLEOTIDES inj_on_def)

lemma node_of_present:
  "present t p \<Longrightarrow> pattern t p = Inr (node_of t p)"
  by (auto simp: present_def node_of_def split: sum.splits)

lemma node_of_fields:
  assumes "present t p"
  shows "count (node_of t p) = count_at t p" "idx (node_of t p) = idx_at t p"
  using node_of_present[OF assms] by (simp_all add: count_at_def idx_at_def)

lemma candidates_pairs:
  assumes "spelled t" "seq t = []"
  shows "candidates t (Suc m) thrd
         = map (\<lambda>(p, s). p @ [s]) (cand_pairs (count_at t) thrd (paths_at_level t m))"
proof -
  have "candidates t (Suc m) thrd
        = map (\<lambda>(p, s). seq (node_of t p) @
                          drop (length (seq (node_of t (tl p @ [s]))) - 1)
                               (seq (node_of t (tl p @ [s]))))
              (cand_pairs (count_at t) thrd (paths_at_level t m))"
    unfolding candidates_def
    using generator_pairs[OF assms, of thrd
        "\<lambda>node_p node_s. seq node_p @ drop (length (seq node_s) - 1) (seq node_s)" m]
    by simp
  also have "\<dots> = map (\<lambda>(p, s). p @ [s]) (cand_pairs (count_at t) thrd (paths_at_level t m))"
  proof (rule map_cong[OF refl])
    fix x
    assume x: "x \<in> set (cand_pairs (count_at t) thrd (paths_at_level t m))"
    obtain p s where ps: "x = (p, s)" by (cases x)
    with x have f: "frequent_in (count_at t) thrd p" "frequent_in (count_at t) thrd (tl p @ [s])"
      by (simp_all add: cand_pairs_mem)
    from spelled_node[OF assms node_of_present[OF frequent_in_present[OF f(1)]]]
    have a: "seq (node_of t p) = p" .
    from spelled_node[OF assms node_of_present[OF frequent_in_present[OF f(2)]]]
    have b: "seq (node_of t (tl p @ [s])) = tl p @ [s]" .
    show "(case x of (p, s) \<Rightarrow> seq (node_of t p) @
                          drop (length (seq (node_of t (tl p @ [s]))) - 1)
                               (seq (node_of t (tl p @ [s]))))
          = (case x of (p, s) \<Rightarrow> p @ [s])"
      by (simp add: ps a b)
  qed
  finally show ?thesis .
qed

lemma candidates_zero: "candidates t 0 thrd = []"
  and candidate_mappings_zero: "candidate_mappings t 0 thrd = Inr []"
  by (simp_all add: candidates_def candidate_mappings_def)

lemma in_all_children:
  "k \<in> set (all_children n) \<longleftrightarrow> (\<exists>nc \<in> set NUCLEOTIDES. children n nc = Some k)"
  unfolding all_children_def
  using set_concat_case[where g = "children n" and f = "\<lambda>nc k. [k]" and xs = NUCLEOTIDES]
  by auto

lemma candidate_mappings_pairs:
  assumes "spelled t" "seq t = []"
    and idx: "\<And>p s. (p, s) \<in> set (cand_pairs (count_at t) thrd (paths_at_level t m)) \<Longrightarrow>
                 idx_at t p \<noteq> None \<and> idx_at t (tl p @ [s]) \<noteq> None"
  shows "candidate_mappings t (Suc m) thrd
         = Inr (map (\<lambda>(i, (p, s)). (p @ [s], (the (idx_at t p), the (idx_at t (tl p @ [s]))), i))
                    (enumerate 0 (cand_pairs (count_at t) thrd (paths_at_level t m))))"
proof -
  let ?pay = "\<lambda>node_p node_s.
      (seq node_p @ drop (length (seq node_s) - 1) (seq node_s), (the (idx node_p), the (idx node_s)))"
  let ?inner = "\<lambda>node_p node_s.
      if has_count_at_least node_s thrd
      then (case idx node_p of
              None \<Rightarrow> Inl AttributeError
            | Some ip \<Rightarrow>
                (case idx node_s of
                   None \<Rightarrow> Inl AttributeError
                 | Some js \<Rightarrow>
                     Inr [(seq node_p @ drop (length (seq node_s) - 1) (seq node_s), (ip, js))]))
      else Inr []"
  let ?body = "\<lambda>node_p.
      if has_count_at_least node_p thrd
      then (case pattern t (tl (seq node_p)) of
              Inl PatternNotFound \<Rightarrow> Inr []
            | Inr node_i \<Rightarrow> collect (?inner node_p) (all_children node_i))
      else Inr []"
  let ?F = "\<lambda>node_p.
      if has_count_at_least node_p thrd
      then (case pattern t (tl (seq node_p)) of
              Inl PatternNotFound \<Rightarrow> []
            | Inr node_i \<Rightarrow>
                concat (map (\<lambda>node_s. if has_count_at_least node_s thrd
                                       then [?pay node_p node_s] else [])
                            (all_children node_i)))
      else []"
  have body: "?body node_p = Inr (?F node_p)" if np: "node_p \<in> set (nodes_at_level t m)" for node_p
  proof (cases "has_count_at_least node_p thrd")
    case False
    then show ?thesis by simp
  next
    case hc: True
    from np obtain p where p: "p \<in> set (paths_at_level t m)" "node_p = node_of t p"
      by (auto simp: nodes_at_level_node_of)
    then have pp: "pattern t p = Inr node_p"
      by (simp add: set_paths_at_level node_of_present)
    from spelled_node[OF assms(1,2) pp] have sq: "seq node_p = p" .
    from hc has_count_at_least_node[OF pp] have fp: "frequent_in (count_at t) thrd p" by simp
    show ?thesis
    proof (cases "pattern t (tl p)")
      case (Inl e)
      with hc sq show ?thesis by (cases e) simp
    next
      case (Inr node_i)
      have "?inner node_p node_s
            = Inr (if has_count_at_least node_s thrd then [?pay node_p node_s] else [])"
        if ns: "node_s \<in> set (all_children node_i)" for node_s
      proof (cases "has_count_at_least node_s thrd")
        case False
        then show ?thesis by simp
      next
        case True
        from ns obtain nc where nc: "nc \<in> set NUCLEOTIDES" "children node_i nc = Some node_s"
          by (auto simp: in_all_children)
        with Inr have ps: "pattern t (tl p @ [nc]) = Inr node_s"
          by (simp add: pattern_append)
        with True has_count_at_least_node[OF ps]
        have "frequent_in (count_at t) thrd (tl p @ [nc])" by simp
        with fp p(1) nc(1) have "(p, nc) \<in> set (cand_pairs (count_at t) thrd (paths_at_level t m))"
          by (simp add: cand_pairs_mem)
        from idx[OF this] pp ps have "idx node_p \<noteq> None" "idx node_s \<noteq> None"
          by (simp_all add: idx_at_def)
        with True show ?thesis by auto
      qed
      then have "collect (?inner node_p) (all_children node_i)
            = Inr (concat (map (\<lambda>node_s. if has_count_at_least node_s thrd
                                       then [?pay node_p node_s] else [])
                            (all_children node_i)))"
        by (intro collect_all_Inr) blast
      with hc sq Inr show ?thesis by simp
    qed
  qed
  have "collect ?body (nodes_at_level t m) = Inr (concat (map ?F (nodes_at_level t m)))"
    by (intro collect_all_Inr ballI body)
  moreover have "concat (map ?F (nodes_at_level t m))
        = map (\<lambda>(p, s). ?pay (node_of t p) (node_of t (tl p @ [s])))
              (cand_pairs (count_at t) thrd (paths_at_level t m))"
    by (rule generator_pairs[OF assms(1,2)])
  moreover have "map (\<lambda>(p, s). ?pay (node_of t p) (node_of t (tl p @ [s])))
              (cand_pairs (count_at t) thrd (paths_at_level t m))
        = map (\<lambda>(p, s). (p @ [s], (the (idx_at t p), the (idx_at t (tl p @ [s])))))
              (cand_pairs (count_at t) thrd (paths_at_level t m))"
  proof (rule map_cong[OF refl])
    fix x
    assume x: "x \<in> set (cand_pairs (count_at t) thrd (paths_at_level t m))"
    obtain p s where ps: "x = (p, s)" by (cases x)
    with x have f: "frequent_in (count_at t) thrd p" "frequent_in (count_at t) thrd (tl p @ [s])"
      by (simp_all add: cand_pairs_mem)
    note pr = frequent_in_present[OF f(1)] frequent_in_present[OF f(2)]
    from spelled_node[OF assms(1,2) node_of_present[OF pr(1)]]
    have a: "seq (node_of t p) = p" .
    from spelled_node[OF assms(1,2) node_of_present[OF pr(2)]]
    have b: "seq (node_of t (tl p @ [s])) = tl p @ [s]" .
    show "(case x of (p, s) \<Rightarrow> ?pay (node_of t p) (node_of t (tl p @ [s])))
          = (case x of (p, s) \<Rightarrow> (p @ [s], (the (idx_at t p), the (idx_at t (tl p @ [s])))))"
      unfolding ps by (simp add: a b node_of_fields[OF pr(1)] node_of_fields[OF pr(2)])
  qed
  ultimately have "collect ?body (nodes_at_level t m)
      = Inr (map (\<lambda>(p, s). (p @ [s], (the (idx_at t p), the (idx_at t (tl p @ [s])))))
              (cand_pairs (count_at t) thrd (paths_at_level t m)))"
    by simp
  then show ?thesis
    unfolding candidate_mappings_def
    by (simp add: enumerate_eq_zip zip_map2 split_def comp_def)
qed

section \<open>The initial trie and the A-priori extension\<close>

lemma subsequences_length: "w \<in> set (subsequences sq m) \<Longrightarrow> length w = m"
  by (auto simp: subsequences_def)

lemma windows_length: "w \<in> set (windows data m) \<Longrightarrow> length w = m"
  by (auto simp: windows_def subsequences_length)

lemma occ_pos_iff: "0 < occ data w \<longleftrightarrow> w \<in> set (windows data (length w))"
  using count_list_0_iff[of "windows data (length w)" w] by (auto simp: occ_def)

lemma count_list_windows: "length w = m \<Longrightarrow> count_list (windows data m) w = occ data w"
  by (simp add: occ_def)

lemma set_candidates:
  assumes "spelled t" "seq t = []"
  shows "set (candidates t (Suc m) thrd) = cand_set (count_at t) thrd m"
proof -
  have "set (candidates t (Suc m) thrd)
        = (\<lambda>(p, s). p @ [s]) ` set (cand_pairs (count_at t) thrd (paths_at_level t m))"
    by (simp add: candidates_pairs[OF assms])
  also have "\<dots> = cand_set (count_at t) thrd m"
  proof (intro set_eqI iffI)
    fix w
    assume "w \<in> (\<lambda>(p, s). p @ [s]) ` set (cand_pairs (count_at t) thrd (paths_at_level t m))"
    then obtain p s where "(p, s) \<in> set (cand_pairs (count_at t) thrd (paths_at_level t m))"
      "w = p @ [s]" by auto
    then show "w \<in> cand_set (count_at t) thrd m"
      by (auto simp: cand_set_def cand_pairs_mem set_paths_at_level)
  next
    fix w
    assume "w \<in> cand_set (count_at t) thrd m"
    then obtain p s where ps: "w = p @ [s]" "length p = m" "set p \<subseteq> set NUCLEOTIDES"
      "s \<in> set NUCLEOTIDES" "frequent_in (count_at t) thrd p"
      "frequent_in (count_at t) thrd (tl p @ [s])"
      by (auto simp: cand_set_def)
    with frequent_in_present[OF ps(5)]
    have "(p, s) \<in> set (cand_pairs (count_at t) thrd (paths_at_level t m))"
      by (simp add: cand_pairs_mem set_paths_at_level)
    with ps(1) show "w \<in> (\<lambda>(p, s). p @ [s]) ` set (cand_pairs (count_at t) thrd (paths_at_level t m))"
      by force
  qed
  finally show ?thesis .
qed

lemma cand_set_length: "w \<in> cand_set f thrd m \<Longrightarrow> length w = Suc m"
  by (auto simp: cand_set_def)

lemma cand_set_prefix_present:
  "w \<in> cand_set (count_at t) thrd m \<Longrightarrow> prefix u w \<Longrightarrow> u = w \<or> present t u"
proof -
  assume w: "w \<in> cand_set (count_at t) thrd m" and u: "prefix u w"
  from w obtain p s where ps: "w = p @ [s]" "frequent_in (count_at t) thrd p"
    by (auto simp: cand_set_def)
  from u ps(1) have "u = w \<or> prefix u p"
    by (auto simp: prefix_snoc)
  with frequent_in_present[OF ps(2)] present_prefix show ?thesis by blast
qed

lemma initialized_tree_obs:
  "present (initialized_tree data m) w \<longleftrightarrow> w = [] \<or> (\<exists>v \<in> set (windows data m). prefix w v)"
  "count_at (initialized_tree data m) w
     = (if length w = m \<and> 0 < occ data w then Some (int (occ data w)) else None)"
  "idx_at (initialized_tree data m) w = None"
  "seq (initialized_tree data m) = []"
  "spelled (initialized_tree data m)"
proof -
  show "present (initialized_tree data m) w \<longleftrightarrow> w = [] \<or> (\<exists>v \<in> set (windows data m). prefix w v)"
    by (simp add: initialized_tree_windows fold_add_count)
  show "count_at (initialized_tree data m) w
     = (if length w = m \<and> 0 < occ data w then Some (int (occ data w)) else None)"
    using windows_length[of w data m]
    by (auto simp: initialized_tree_windows fold_add_count occ_pos_iff count_list_windows)
  show "idx_at (initialized_tree data m) w = None"
    by (simp add: initialized_tree_windows fold_add_count)
  show "seq (initialized_tree data m) = []"
    by (simp add: initialized_tree_windows fold_add_count)
  show "spelled (initialized_tree data m)"
    by (simp add: initialized_tree_windows fold_add_count)
qed

lemma initialized_tree_inv: "trie_inv data m (initialized_tree data m)"
  unfolding trie_inv_def
  by (auto simp: initialized_tree_obs dest: windows_length prefix_length_le split: if_splits)

lemma run_apriori_obs:
  assumes "trie_inv data m t"
  shows "present (run_apriori data t (Suc m) thrd) w
           \<longleftrightarrow> present t w \<or> w \<in> cand_set (count_at t) thrd m"
    and "count_at (run_apriori data t (Suc m) thrd) w = extend_counts data thrd m (count_at t) w"
    and "idx_at (run_apriori data t (Suc m) thrd) w = idx_at t w"
    and "seq (run_apriori data t (Suc m) thrd) = []"
    and "spelled (run_apriori data t (Suc m) thrd)"
proof -
  from assms have sp: "spelled t" and sq: "seq t = []"
    and depth: "\<And>w. present t w \<Longrightarrow> length w \<le> m"
    by (auto simp: trie_inv_def)
  note cs = set_candidates[OF sp sq, of m thrd]
  let ?t1 = "fold (\<lambda>sq t. add t sq None None) (candidates t (Suc m) thrd) t"
  have p1: "present ?t1 w \<longleftrightarrow> present t w \<or> w \<in> cand_set (count_at t) thrd m" for w
  proof -
    have "(\<exists>c \<in> cand_set (count_at t) thrd m. prefix w c)
          \<longrightarrow> present t w \<or> w \<in> cand_set (count_at t) thrd m"
      using cand_set_prefix_present by blast
    then show ?thesis
      by (auto simp: fold_add_plain cs)
  qed
  show "present (run_apriori data t (Suc m) thrd) w
           \<longleftrightarrow> present t w \<or> w \<in> cand_set (count_at t) thrd m"
    by (simp add: run_apriori_windows fold_increment_count p1)
  show "idx_at (run_apriori data t (Suc m) thrd) w = idx_at t w"
    by (simp add: run_apriori_windows fold_increment_count fold_add_plain)
  show "seq (run_apriori data t (Suc m) thrd) = []"
    by (simp add: run_apriori_windows fold_increment_count fold_add_plain sq)
  show "spelled (run_apriori data t (Suc m) thrd)"
    by (simp add: run_apriori_windows fold_increment_count fold_add_plain sp)
  have c1: "count_at ?t1 w = count_at t w"
    by (simp add: fold_add_plain)
  have cf: "count_at (run_apriori data t (Suc m) thrd) w =
     (if w \<in> set (windows data (Suc m)) \<and> present ?t1 w
      then Some (int (count_list (windows data (Suc m)) w)
                 + (case count_at ?t1 w of None \<Rightarrow> 0 | Some k \<Rightarrow> k))
      else count_at ?t1 w)"
    by (simp only: run_apriori_windows fold_increment_count(5))
  show "count_at (run_apriori data t (Suc m) thrd) w = extend_counts data thrd m (count_at t) w"
  proof (cases "w \<in> set (windows data (Suc m))")
    case False
    then have "\<not> (w \<in> cand_set (count_at t) thrd m \<and> 0 < occ data w)"
      by (auto simp: occ_pos_iff dest: cand_set_length)
    with False show ?thesis
      unfolding cf c1 by (auto simp: extend_counts_def)
  next
    case True
    then have len: "length w = Suc m" by (rule windows_length)
    with depth[of w] have np: "\<not> present t w" by auto
    then have c0: "count_at t w = None" by (rule count_at_absent)
    from True len have pos: "0 < occ data w" by (simp add: occ_pos_iff)
    from np c0 True len pos show ?thesis
      unfolding cf c1 p1 by (simp add: extend_counts_def count_list_windows)
  qed
qed

lemma run_apriori_inv:
  assumes "trie_inv data m t"
  shows "trie_inv data (Suc m) (run_apriori data t (Suc m) thrd)"
proof -
  from assms have depth: "\<And>w. present t w \<Longrightarrow> length w \<le> m"
    and cnt: "\<And>w c. count_at t w = Some c \<Longrightarrow> c = int (occ data w) \<and> 0 < occ data w"
    by (auto simp: trie_inv_def)
  note o = run_apriori_obs[OF assms, of thrd]
  show ?thesis
    unfolding trie_inv_def
  proof (intro conjI allI impI)
    show "spelled (run_apriori data t (Suc m) thrd)" by (rule o)
    show "seq (run_apriori data t (Suc m) thrd) = []" by (rule o)
  next
    fix w
    assume "present (run_apriori data t (Suc m) thrd) w"
    with o(1) depth[of w] cand_set_length[of w] show "length w \<le> Suc m"
      by force
  next
    fix w c
    assume c: "count_at (run_apriori data t (Suc m) thrd) w = Some c"
    with cnt[of w c] show "c = int (occ data w)"
      by (auto simp: o(2) extend_counts_def split: if_splits)
    from c cnt[of w c] show "0 < occ data w"
      by (auto simp: o(2) extend_counts_def split: if_splits)
  qed
qed

section \<open>The adjacency join on the queue\<close>

lemma join_joined:
  assumes "\<And>c. c \<in> ran im \<Longrightarrow> pd c \<noteq> None"
  shows "join im pd cur rest nq t
         = Inr (nq @ joined im cur rest,
                fold (\<lambda>r t. increment_count t (the (pd (snd (snd r)))) 1) (joined im cur rest) t)"
  using assms
proof (induction im pd cur rest nq t rule: join.induct)
  case (1 im pd cur nq t)
  then show ?case by simp
next
  case (2 im pd cid cpos cidx nid npos nidx queue nq t)
  show ?case
  proof (cases "nid = cid \<and> int npos - int cpos = 1")
    case False
    with "2.IH"(3)[OF False "2.prems"] show ?thesis
      by (auto simp: bridge_def)
  next
    case True
    show ?thesis
    proof (cases "im (cidx, nidx)")
      case None
      with True "2.IH"(1)[OF True None "2.prems"] show ?thesis
        by (simp add: bridge_def)
    next
      case (Some c)
      then have "c \<in> ran im" by (auto simp: ran_def)
      from "2.prems"[OF this] obtain sq where sq: "pd c = Some sq" by auto
      with True Some "2.IH"(2)[OF True Some sq "2.prems"] show ?thesis
        by (simp add: bridge_def)
    qed
  qed
qed

lemma joined_append:
  "joined im cur (xs @ y # ys)
     = joined im cur xs @ bridge im (last (cur # xs)) y @ joined im y ys"
  by (induction xs arbitrary: cur) simp_all

lemma joined_list_append:
  "xs \<noteq> [] \<Longrightarrow> ys \<noteq> [] \<Longrightarrow>
   joined_list im (xs @ ys) = joined_list im xs @ bridge im (last xs) (hd ys) @ joined_list im ys"
proof -
  assume "xs \<noteq> []" "ys \<noteq> []"
  then obtain x xs' y ys' where e: "xs = x # xs'" "ys = y # ys'"
    by (cases xs; cases ys) auto
  show ?thesis
    unfolding e joined_list_def using joined_append[of im x xs' y ys'] by simp
qed

lemma joined_list_simps [simp]: "joined_list im [] = []" "joined_list im [x] = []"
  by (simp_all add: joined_list_def)

lemma map_filter_snoc:
  "List.map_filter h (xs @ [x]) = List.map_filter h xs @ (case h x of None \<Rightarrow> [] | Some r \<Rightarrow> [r])"
  by (simp add: map_filter_def split: option.splits)

lemma map_filter_empty_iff: "List.map_filter h xs = [] \<longleftrightarrow> (\<forall>x \<in> set xs. h x = None)"
  by (induction xs) (auto split: option.splits)

lemma set_map_filter: "set (List.map_filter h xs) = {r. \<exists>x \<in> set xs. h x = Some r}"
  by (induction xs) (auto split: option.splits)

lemma joined_row:
  "joined_list im (List.map_filter (\<lambda>pos. map_option (\<lambda>i. (ident, pos, i)) (phi pos)) [0..<n])
   = List.map_filter
       (\<lambda>pos. case phi pos of
                 None \<Rightarrow> None
               | Some i1 \<Rightarrow>
                   (case phi (Suc pos) of
                      None \<Rightarrow> None
                    | Some i2 \<Rightarrow> map_option (\<lambda>c. (ident, pos, c)) (im (i1, i2))))
       [0..<n - 1]"
proof (induction n)
  case 0
  then show ?case by simp
next
  case (Suc n)
  let ?h = "\<lambda>pos. map_option (\<lambda>i. (ident, pos, i)) (phi pos)"
  let ?k = "\<lambda>pos. case phi pos of
                 None \<Rightarrow> None
               | Some i1 \<Rightarrow>
                   (case phi (Suc pos) of
                      None \<Rightarrow> None
                    | Some i2 \<Rightarrow> map_option (\<lambda>c. (ident, pos, c)) (im (i1, i2)))"
  let ?row = "List.map_filter ?h [0..<n]"
  have row_Suc: "List.map_filter ?h [0..<Suc n]
                 = ?row @ (case phi n of None \<Rightarrow> [] | Some i \<Rightarrow> [(ident, n, i)])"
    by (simp add: map_filter_snoc split: option.splits)
  have bound: "\<And>r. r \<in> set ?row \<Longrightarrow> fst r = ident \<and> fst (snd r) < n"
    by (auto simp: set_map_filter)
  show ?case
  proof (cases n)
    case 0
    then show ?thesis by (simp split: option.splits)
  next
    case (Suc n')
    have k_Suc: "List.map_filter ?k [0..<Suc n - 1]
                 = List.map_filter ?k [0..<n - 1] @ (case ?k n' of None \<Rightarrow> [] | Some r \<Rightarrow> [r])"
      using Suc by (simp add: map_filter_snoc)
    have row_n: "?row = List.map_filter ?h [0..<n'] @ (case phi n' of None \<Rightarrow> [] | Some i \<Rightarrow> [(ident, n', i)])"
      using Suc by (simp add: map_filter_snoc split: option.splits)
    show ?thesis
    proof (cases "phi n")
      case None
      then have "?k n' = None" using Suc by (simp split: option.splits)
      with None Suc.IH show ?thesis
        unfolding row_Suc k_Suc by simp
    next
      case (Some i)
      show ?thesis
      proof (cases "?row = []")
        case True
        with row_n have "phi n' = None" by (auto split: option.splits)
        then have "?k n' = None" by simp
        with True Some Suc.IH show ?thesis
          unfolding row_Suc k_Suc by simp
      next
        case False
        have br: "bridge im (last ?row) (ident, n, i) = (case ?k n' of None \<Rightarrow> [] | Some r \<Rightarrow> [r])"
        proof (cases "phi n'")
          case None
          with row_n False have eq: "?row = List.map_filter ?h [0..<n']" by simp
          define r where "r = last ?row"
          from last_in_set[OF False] have "r \<in> set ?row" by (simp only: r_def)
          with eq have "r \<in> set (List.map_filter ?h [0..<n'])" by simp
          then have "fst (snd r) < n'"
            by (auto simp: set_map_filter)
          with Suc None show ?thesis
            unfolding r_def[symmetric] by (simp add: bridge_def)
        next
          case (Some i1)
          with row_n have "last ?row = (ident, n', i1)" by simp
          with Some \<open>phi n = Some i\<close> Suc show ?thesis
            by (simp add: bridge_def split: option.splits)
        qed
        from False Some have
          "joined_list im (?row @ [(ident, n, i)])
           = joined_list im ?row @ bridge im (last ?row) (ident, n, i)"
          using joined_list_append[of ?row "[(ident, n, i)]" im] by simp
        with Some Suc.IH br show ?thesis
          unfolding row_Suc k_Suc by simp
      qed
    qed
  qed
qed

lemma map_filter_cong:
  "(\<And>x. x \<in> set xs \<Longrightarrow> f x = g x) \<Longrightarrow> List.map_filter f xs = List.map_filter g xs"
  by (induction xs) (auto split: option.splits)

lemma queue_row_fst: "r \<in> set (queue_row m g ident sq) \<Longrightarrow> fst r = ident"
  by (auto simp: queue_row_def set_map_filter)

lemma queue_from_Nil [simp]: "queue_from n [] m g = []"
  by (simp add: queue_from_def)

lemma queue_from_Cons:
  "queue_from n (sq # data) m g = queue_row m g n sq @ queue_from (Suc n) data m g"
  by (simp add: queue_from_def)

lemma queue_from_fst: "r \<in> set (queue_from n data m g) \<Longrightarrow> n \<le> fst r"
proof (induction data arbitrary: n)
  case Nil
  then show ?case by simp
next
  case (Cons sq data)
  then show ?case
    by (fastforce simp: queue_from_Cons dest: queue_row_fst)
qed

lemma joined_queue_from:
  "joined_list im (queue_from n data m g)
     = concat (map (\<lambda>(ident, sq). joined_list im (queue_row m g ident sq)) (enumerate n data))"
proof (induction data arbitrary: n)
  case Nil
  then show ?case by simp
next
  case (Cons sq data)
  let ?row = "queue_row m g n sq" and ?rest = "queue_from (Suc n) data m g"
  show ?case
  proof (cases "?row = [] \<or> ?rest = []")
    case True
    then show ?thesis
    proof
      assume "?row = []"
      with Cons.IH[of "Suc n"] show ?thesis by (simp add: queue_from_Cons)
    next
      assume r: "?rest = []"
      with Cons.IH[of "Suc n"] have
        "concat (map (\<lambda>(ident, sq). joined_list im (queue_row m g ident sq))
                     (enumerate (Suc n) data)) = []"
        by simp
      with r show ?thesis by (simp add: queue_from_Cons)
    qed
  next
    case False
    then have ne: "?row \<noteq> []" "?rest \<noteq> []" by auto
    from ne(1) have "fst (last ?row) = n"
      using queue_row_fst[of "last ?row" m g n sq] by simp
    moreover from ne(2) have "Suc n \<le> fst (hd ?rest)"
      using queue_from_fst[of "hd ?rest" "Suc n" data m g] by simp
    ultimately have "bridge im (last ?row) (hd ?rest) = []"
      by (simp add: bridge_def)
    with joined_list_append[OF ne, of im] Cons.IH[of "Suc n"] show ?thesis
      by (simp add: queue_from_Cons)
  qed
qed

lemma joined_queue_row:
  "joined_list im (queue_row m g ident sq) = queue_row (Suc m) (pair_idx im g m) ident sq"
proof -
  have "joined_list im (queue_row m g ident sq)
        = List.map_filter
            (\<lambda>pos. case g (take m (drop pos sq)) of
                 None \<Rightarrow> None
               | Some i1 \<Rightarrow>
                   (case g (take m (drop (Suc pos) sq)) of
                      None \<Rightarrow> None
                    | Some i2 \<Rightarrow> map_option (\<lambda>c. (ident, pos, c)) (im (i1, i2))))
            [0..<length sq + 1 - m - 1]"
    unfolding queue_row_def by (rule joined_row)
  also have "\<dots> = queue_row (Suc m) (pair_idx im g m) ident sq"
    unfolding queue_row_def
  proof -
    have len: "length sq + 1 - m - 1 = length sq + 1 - Suc m" by simp
    have "(case g (take m (drop pos sq)) of
                 None \<Rightarrow> None
               | Some i1 \<Rightarrow>
                   (case g (take m (drop (Suc pos) sq)) of
                      None \<Rightarrow> None
                    | Some i2 \<Rightarrow> map_option (\<lambda>c. (ident, pos, c)) (im (i1, i2))))
          = map_option (\<lambda>i. (ident, pos, i)) (pair_idx im g m (take (Suc m) (drop pos sq)))"
      for pos
    proof -
      have a: "take m (take (Suc m) (drop pos sq)) = take m (drop pos sq)"
        by (simp add: min_def)
      have b: "drop 1 (take (Suc m) (drop pos sq)) = take m (drop (Suc pos) sq)"
        by (simp add: drop_take)
      show ?thesis
        unfolding pair_idx_def a b by (simp split: option.splits)
    qed
    then show "List.map_filter
            (\<lambda>pos. case g (take m (drop pos sq)) of
                 None \<Rightarrow> None
               | Some i1 \<Rightarrow>
                   (case g (take m (drop (Suc pos) sq)) of
                      None \<Rightarrow> None
                    | Some i2 \<Rightarrow> map_option (\<lambda>c. (ident, pos, c)) (im (i1, i2))))
            [0..<length sq + 1 - m - 1]
          = List.map_filter
              (\<lambda>pos. map_option (\<lambda>i. (ident, pos, i))
                        (pair_idx im g m (take (Suc m) (drop pos sq))))
              [0..<length sq + 1 - Suc m]"
      unfolding len by simp
  qed
  finally show ?thesis .
qed

lemma joined_queue_spec:
  "joined_list im (queue_spec data m g) = queue_spec data (Suc m) (pair_idx im g m)"
  unfolding queue_spec_def joined_queue_from joined_queue_row
  by (simp add: queue_from_def)

lemma queue_row_cong:
  "(\<And>w. w \<in> set (subsequences sq m) \<Longrightarrow> g w = g' w) \<Longrightarrow> queue_row m g ident sq = queue_row m g' ident sq"
  unfolding queue_row_def
  by (rule map_filter_cong) (auto simp: subsequences_def)

lemma queue_from_cong:
  "(\<And>w. w \<in> set (windows data m) \<Longrightarrow> g w = g' w) \<Longrightarrow> queue_from n data m g = queue_from n data m g'"
proof (induction data arbitrary: n)
  case Nil
  then show ?case by simp
next
  case (Cons sq data)
  have "queue_row m g n sq = queue_row m g' n sq"
    by (rule queue_row_cong) (simp add: Cons.prems windows_def)
  moreover have "queue_from (Suc n) data m g = queue_from (Suc n) data m g'"
    by (rule Cons.IH) (simp add: Cons.prems windows_def)
  ultimately show ?case by (simp add: queue_from_Cons)
qed

lemma queue_spec_cong:
  "(\<And>w. w \<in> set (windows data m) \<Longrightarrow> g w = g' w) \<Longrightarrow> queue_spec data m g = queue_spec data m g'"
  unfolding queue_spec_def by (rule queue_from_cong)

lemma queue_row_patterns:
  assumes "\<And>w i. w \<in> set (subsequences sq m) \<Longrightarrow> g w = Some i \<Longrightarrow> pd i = Some w"
  shows "map (\<lambda>r. the (pd (snd (snd r)))) (queue_row m g ident sq)
         = filter (\<lambda>w. g w \<noteq> None) (subsequences sq m)"
proof -
  have "map (\<lambda>r. the (pd (snd (snd r))))
          (List.map_filter (\<lambda>pos. map_option (\<lambda>i. (ident, pos, i)) (g (take m (drop pos sq)))) xs)
        = filter (\<lambda>w. g w \<noteq> None) (map (\<lambda>i. take m (drop i sq)) xs)"
    if "set xs \<subseteq> {0..<length sq + 1 - m}" for xs
    using that
  proof (induction xs)
    case Nil
    then show ?case by simp
  next
    case (Cons x xs)
    then have "take m (drop x sq) \<in> set (subsequences sq m)"
      by (auto simp: subsequences_def)
    from assms[OF this] Cons show ?case
      by (auto split: option.splits)
  qed
  from this[of "[0..<length sq + 1 - m]"] show ?thesis
    by (simp add: queue_row_def subsequences_def)
qed

lemma queue_from_patterns:
  assumes "\<And>w i. w \<in> set (windows data m) \<Longrightarrow> g w = Some i \<Longrightarrow> pd i = Some w"
  shows "map (\<lambda>r. the (pd (snd (snd r)))) (queue_from n data m g)
         = filter (\<lambda>w. g w \<noteq> None) (windows data m)"
  using assms
proof (induction data arbitrary: n)
  case Nil
  then show ?case by (simp add: windows_def)
next
  case (Cons sq data)
  have "map (\<lambda>r. the (pd (snd (snd r)))) (queue_row m g n sq)
        = filter (\<lambda>w. g w \<noteq> None) (subsequences sq m)"
    by (rule queue_row_patterns) (simp add: Cons.prems windows_def)
  moreover have "map (\<lambda>r. the (pd (snd (snd r)))) (queue_from (Suc n) data m g)
        = filter (\<lambda>w. g w \<noteq> None) (windows data m)"
    by (rule Cons.IH) (simp add: Cons.prems windows_def)
  ultimately show ?case by (simp add: queue_from_Cons windows_def)
qed

lemma queue_spec_patterns:
  assumes "\<And>w i. w \<in> set (windows data m) \<Longrightarrow> g w = Some i \<Longrightarrow> pd i = Some w"
  shows "map (\<lambda>r. the (pd (snd (snd r)))) (queue_spec data m g)
         = filter (\<lambda>w. g w \<noteq> None) (windows data m)"
  unfolding queue_spec_def using assms by (rule queue_from_patterns)

lemma queue_spec_empty_iff:
  "queue_spec data m g = [] \<longleftrightarrow> (\<forall>w \<in> set (windows data m). g w = None)"
proof -
  have "queue_spec data m g = [] \<longleftrightarrow> map (\<lambda>r. the (Some (snd (snd r)))) (queue_spec data m g) = []"
    by simp
  have r: "queue_row m g ident sq = [] \<longleftrightarrow> (\<forall>w \<in> set (subsequences sq m). g w = None)" for ident sq
    by (auto simp: queue_row_def map_filter_empty_iff subsequences_def)
  have "queue_from n data m g = [] \<longleftrightarrow> (\<forall>w \<in> set (windows data m). g w = None)" for n
  proof (induction data arbitrary: n)
    case Nil
    then show ?case by (simp add: windows_def)
  next
    case (Cons sq data)
    from Cons.IH[of "Suc n"] r[of n sq] show ?case
      by (auto simp: queue_from_Cons windows_def)
  qed
  then show ?thesis by (simp add: queue_spec_def)
qed

section \<open>Index assignment and the initial queue\<close>

lemma assign_pattern_index_fold:
  "assign_pattern_index t m thrd = fst (fold (assign_step thrd) (paths_at_level t m) (t, 0))"
  unfolding assign_pattern_index_def assign_step_def ..

lemma assign_step_obs:
  assumes "present t p" "assign_step thrd p (t, i) = (t1, i1)"
  shows "present t1 w = present t w" "count_at t1 w = count_at t w" "seq_at t1 w = seq_at t w"
    "idx_at t1 w = (if w = p \<and> frequent_in (count_at t) thrd p then Some i else idx_at t w)"
    "i1 = (if frequent_in (count_at t) thrd p then i + 1 else i)"
proof -
  from assms(1) obtain n where n: "pattern t p = Inr n"
    by (auto simp: present_def split: sum.splits)
  note hc = has_count_at_least_node[OF n, of thrd]
  show "present t1 w = present t w"
    using assms(2) n hc by (auto simp: assign_step_def store_obs split: if_splits)
  show "count_at t1 w = count_at t w"
    using assms(2) n hc by (auto simp: assign_step_def store_obs obs_Inr split: if_splits)
  show "seq_at t1 w = seq_at t w"
    using assms(2) n hc by (auto simp: assign_step_def store_obs split: if_splits)
  show "idx_at t1 w = (if w = p \<and> frequent_in (count_at t) thrd p then Some i else idx_at t w)"
    using assms(2) n hc by (auto simp: assign_step_def store_obs split: if_splits)
  show "i1 = (if frequent_in (count_at t) thrd p then i + 1 else i)"
    using assms(2) n hc by (auto simp: assign_step_def split: if_splits)
qed

lemma assign_fold_all:
  "distinct ps \<Longrightarrow> (\<And>p. p \<in> set ps \<Longrightarrow> present t p) \<Longrightarrow>
   fold (assign_step thrd) ps (t, i) = (t', i') \<Longrightarrow>
   (\<forall>w. present t' w = present t w \<and> count_at t' w = count_at t w \<and> seq_at t' w = seq_at t w) \<and>
   (\<forall>w. w \<notin> set (filter (frequent_in (count_at t) thrd) ps) \<longrightarrow> idx_at t' w = idx_at t w) \<and>
   (\<forall>j < length (filter (frequent_in (count_at t) thrd) ps).
      idx_at t' (filter (frequent_in (count_at t) thrd) ps ! j) = Some (i + j))"
proof (induction ps arbitrary: t i)
  case Nil
  then show ?case by simp
next
  case (Cons p ps)
  obtain t1 i1 where s1: "assign_step thrd p (t, i) = (t1, i1)"
    by (cases "assign_step thrd p (t, i)")
  from Cons.prems(2) have pp: "present t p" by simp
  note o1 = assign_step_obs[OF pp s1]
  from Cons.prems(3) s1 have f1: "fold (assign_step thrd) ps (t1, i1) = (t', i')" by simp
  from Cons.prems(1) have d1: "distinct ps" by simp
  have pr1: "\<And>q. q \<in> set ps \<Longrightarrow> present t1 q" using Cons.prems(2) o1(1) by simp
  have fr: "frequent_in (count_at t1) thrd = frequent_in (count_at t) thrd"
    by (rule ext) (simp add: frequent_in_def o1(2))
  from Cons.IH[OF d1 pr1 f1] have
    ih1: "\<And>w. present t' w = present t1 w \<and> count_at t' w = count_at t1 w
            \<and> seq_at t' w = seq_at t1 w"
    and ih4: "\<And>w. w \<notin> set (filter (frequent_in (count_at t) thrd) ps) \<Longrightarrow> idx_at t' w = idx_at t1 w"
    and ih5: "\<And>j. j < length (filter (frequent_in (count_at t) thrd) ps) \<Longrightarrow>
                idx_at t' (filter (frequent_in (count_at t) thrd) ps ! j) = Some (i1 + j)"
    unfolding fr by blast+
  have a: "present t' w = present t w \<and> count_at t' w = count_at t w \<and> seq_at t' w = seq_at t w"
    for w
    using ih1[of w] o1(1,2,3) by simp
  have b: "idx_at t' w = idx_at t w"
    if "w \<notin> set (filter (frequent_in (count_at t) thrd) (p # ps))" for w
    using ih4[of w] o1(4)[of w] that by (auto split: if_splits)
  have c: "idx_at t' (filter (frequent_in (count_at t) thrd) (p # ps) ! j) = Some (i + j)"
    if j: "j < length (filter (frequent_in (count_at t) thrd) (p # ps))" for j
  proof (cases "frequent_in (count_at t) thrd p")
    case False
    with ih5[of j] o1(5) j show ?thesis by simp
  next
    case True
    show ?thesis
    proof (cases j)
      case 0
      from Cons.prems(1) have "p \<notin> set (filter (frequent_in (count_at t) thrd) ps)" by simp
      from ih4[OF this] o1(4)[of p] True 0 show ?thesis by simp
    next
      case (Suc j')
      with ih5[of j'] o1(5) True j show ?thesis by simp
    qed
  qed
  from a b c show ?case by blast
qed

lemma assign_pattern_index_obs:
  assumes "fs = filter (frequent_in (count_at t) thrd) (paths_at_level t m)"
  shows "present (assign_pattern_index t m thrd) w = present t w"
    and "count_at (assign_pattern_index t m thrd) w = count_at t w"
    and "seq_at (assign_pattern_index t m thrd) w = seq_at t w"
    and "w \<notin> set fs \<Longrightarrow> idx_at (assign_pattern_index t m thrd) w = idx_at t w"
    and "j < length fs \<Longrightarrow> idx_at (assign_pattern_index t m thrd) (fs ! j) = Some j"
proof -
  obtain t' i' where f: "fold (assign_step thrd) (paths_at_level t m) (t, 0) = (t', i')"
    by (cases "fold (assign_step thrd) (paths_at_level t m) (t, 0)")
  then have e: "assign_pattern_index t m thrd = t'"
    by (simp add: assign_pattern_index_fold)
  have pr: "\<And>p. p \<in> set (paths_at_level t m) \<Longrightarrow> present t p"
    by (simp add: set_paths_at_level)
  note all = assign_fold_all[OF distinct_paths_at_level pr f, folded assms]
  show "present (assign_pattern_index t m thrd) w = present t w"
    and "count_at (assign_pattern_index t m thrd) w = count_at t w"
    and "seq_at (assign_pattern_index t m thrd) w = seq_at t w"
    and "w \<notin> set fs \<Longrightarrow> idx_at (assign_pattern_index t m thrd) w = idx_at t w"
    and "j < length fs \<Longrightarrow> idx_at (assign_pattern_index t m thrd) (fs ! j) = Some j"
    unfolding e using all by simp_all
qed

section \<open>The queue: order, length and the exceptions of the position engine\<close>

lemma rec_less_trans: "rec_less a b \<Longrightarrow> rec_less b c \<Longrightarrow> rec_less a c"
  by (auto simp: rec_less_def)

lemma rec_less_same_pos: "fst a = fst b \<Longrightarrow> fst (snd a) = fst (snd b) \<Longrightarrow> rec_less c a = rec_less c b"
  and rec_less_same_pos': "fst a = fst b \<Longrightarrow> fst (snd a) = fst (snd b) \<Longrightarrow> rec_less a c = rec_less b c"
  by (auto simp: rec_less_def)

lemma join_length:
  "join im pd cur rest nq t = Inr (q', t') \<Longrightarrow> length q' \<le> length nq + length rest"
proof (induction im pd cur rest nq t rule: join.induct)
  case (1 im pd cur nq t)
  then show ?case by simp
next
  case (2 im pd cid cpos cidx nid npos nidx queue nq t)
  then show ?case
    by (fastforce split: if_splits option.splits)
qed

lemma join_sorted:
  "join im pd cur rest nq t = Inr (q', t') \<Longrightarrow> sorted_wrt rec_less (cur # rest) \<Longrightarrow>
   sorted_wrt rec_less nq \<Longrightarrow> (\<forall>r \<in> set nq. rec_less r cur) \<Longrightarrow> sorted_wrt rec_less q'"
proof (induction im pd cur rest nq t rule: join.induct)
  case (1 im pd cur nq t)
  then show ?case by simp
next
  case (2 im pd cid cpos cidx nid npos nidx queue nq t)
  let ?cur = "(cid, cpos, cidx)" and ?nxt = "(nid, npos, nidx)"
  from "2.prems"(2) have cn: "rec_less ?cur ?nxt" and s: "sorted_wrt rec_less (?nxt # queue)"
    by auto
  have nq: "\<forall>r \<in> set nq. rec_less r ?nxt"
    using "2.prems"(4) cn rec_less_trans by blast
  show ?case
  proof (cases "nid = cid \<and> int npos - int cpos = 1")
    case False
    with "2.prems"(1) have "join im pd ?nxt queue nq t = Inr (q', t')" by (simp split: if_splits)
    from "2.IH"(3)[OF False this s "2.prems"(3) nq] show ?thesis .
  next
    case True
    show ?thesis
    proof (cases "im (cidx, nidx)")
      case None
      with True "2.prems"(1) have "join im pd ?nxt queue nq t = Inr (q', t')" by simp
      from "2.IH"(1)[OF True None this s "2.prems"(3) nq] show ?thesis .
    next
      case (Some c)
      with True "2.prems"(1) obtain sq where sq: "pd c = Some sq"
        and j: "join im pd ?nxt queue (nq @ [(cid, cpos, c)]) (increment_count t sq 1) = Inr (q', t')"
        by (auto split: option.splits)
      have "\<forall>r \<in> set nq. rec_less r (cid, cpos, c)"
        using "2.prems"(4) by (simp add: rec_less_def)
      then have a: "sorted_wrt rec_less (nq @ [(cid, cpos, c)])"
        using "2.prems"(3) by (simp add: sorted_wrt_append)
      have b: "\<forall>r \<in> set (nq @ [(cid, cpos, c)]). rec_less r ?nxt"
        using nq cn by (auto simp: rec_less_def)
      from "2.IH"(2)[OF True Some sq j s a b] show ?thesis .
    qed
  qed
qed

lemma join_idx:
  "join im pd cur rest nq t = Inr (q', t') \<Longrightarrow>
   \<forall>r \<in> set q'. r \<in> set nq \<or> snd (snd r) \<in> ran im"
proof (induction im pd cur rest nq t rule: join.induct)
  case (1 im pd cur nq t)
  then show ?case by simp
next
  case (2 im pd cid cpos cidx nid npos nidx queue nq t)
  show ?case
  proof (cases "nid = cid \<and> int npos - int cpos = 1")
    case False
    with "2.prems"(1) have "join im pd (nid, npos, nidx) queue nq t = Inr (q', t')" by (simp split: if_splits)
    from "2.IH"(3)[OF False this] show ?thesis .
  next
    case True
    show ?thesis
    proof (cases "im (cidx, nidx)")
      case None
      with True "2.prems"(1) have "join im pd (nid, npos, nidx) queue nq t = Inr (q', t')" by simp
      from "2.IH"(1)[OF True None this] show ?thesis .
    next
      case (Some c)
      with True "2.prems"(1) obtain sq where sq: "pd c = Some sq"
        and j: "join im pd (nid, npos, nidx) queue (nq @ [(cid, cpos, c)]) (increment_count t sq 1) = Inr (q', t')"
        by (auto split: option.splits)
      from "2.IH"(2)[OF True Some sq j] Some show ?thesis
        by (auto simp: ran_def)
    qed
  qed
qed


lemma enumerate_Cons: "enumerate n (x # xs) = (n, x) # enumerate (Suc n) xs"
  by simp

lemma queue_row_sorted:
  "collect (\<lambda>(pos, subseq).
      case pattern tree subseq of
        Inl PatternNotFound \<Rightarrow> Inr []
      | Inr node \<Rightarrow>
          if has_count_at_least node thrd
          then (case idx node of None \<Rightarrow> Inl AttributeError | Some i \<Rightarrow> Inr [(ident, pos, i)])
          else Inr [])
     (enumerate n subs) = Inr ys \<Longrightarrow>
   sorted_wrt rec_less ys \<and> (\<forall>r \<in> set ys. fst r = ident \<and> n \<le> fst (snd r))"
proof (induction subs arbitrary: n ys)
  case Nil
  then show ?case by simp
next
  case (Cons sb subs)
  from Cons.prems obtain hd_part tl_part where
    tl: "collect (\<lambda>(pos, subseq).
      case pattern tree subseq of
        Inl PatternNotFound \<Rightarrow> Inr []
      | Inr node \<Rightarrow>
          if has_count_at_least node thrd
          then (case idx node of None \<Rightarrow> Inl AttributeError | Some i \<Rightarrow> Inr [(ident, pos, i)])
          else Inr [])
     (enumerate (Suc n) subs) = Inr tl_part"
    and ys: "ys = hd_part @ tl_part"
    and hd: "hd_part = [] \<or> (\<exists>i. hd_part = [(ident, n, i)])"
    by (auto split: sum.splits pattern_not_found.splits if_splits option.splits)
  from Cons.IH[OF tl] have
    st: "sorted_wrt rec_less tl_part" and b: "\<forall>r \<in> set tl_part. fst r = ident \<and> Suc n \<le> fst (snd r)"
    by auto
  from hd show ?case
  proof
    assume "hd_part = []"
    with ys st b show ?thesis by auto
  next
    assume "\<exists>i. hd_part = [(ident, n, i)]"
    then obtain i where i: "hd_part = [(ident, n, i)]" ..
    have "\<forall>r \<in> set tl_part. rec_less (ident, n, i) r"
      using b by (auto simp: rec_less_def)
    with i ys st b show ?thesis by auto
  qed
qed

lemma initialized_queue_sorted_from:
  "collect (\<lambda>(ident, sq).
        collect (\<lambda>(pos, subseq).
           case pattern tree subseq of
             Inl PatternNotFound \<Rightarrow> Inr []
           | Inr node \<Rightarrow>
               if has_count_at_least node thrd
               then (case idx node of None \<Rightarrow> Inl AttributeError
                     | Some i \<Rightarrow> Inr [(ident, pos, i)])
               else Inr [])
          (enumerate 0 (subsequences sq len)))
       (enumerate n data) = Inr q \<Longrightarrow>
   sorted_wrt rec_less q \<and> (\<forall>r \<in> set q. n \<le> fst r)"
proof (induction data arbitrary: n q)
  case Nil
  then show ?case by simp
next
  case (Cons sq data)
  from Cons.prems obtain row rest where
    row: "collect (\<lambda>(pos, subseq).
           case pattern tree subseq of
             Inl PatternNotFound \<Rightarrow> Inr []
           | Inr node \<Rightarrow>
               if has_count_at_least node thrd
               then (case idx node of None \<Rightarrow> Inl AttributeError
                     | Some i \<Rightarrow> Inr [(n, pos, i)])
               else Inr [])
          (enumerate 0 (subsequences sq len)) = Inr row"
    and rest: "collect (\<lambda>(ident, sq).
        collect (\<lambda>(pos, subseq).
           case pattern tree subseq of
             Inl PatternNotFound \<Rightarrow> Inr []
           | Inr node \<Rightarrow>
               if has_count_at_least node thrd
               then (case idx node of None \<Rightarrow> Inl AttributeError
                     | Some i \<Rightarrow> Inr [(ident, pos, i)])
               else Inr [])
          (enumerate 0 (subsequences sq len)))
       (enumerate (Suc n) data) = Inr rest"
    and q: "q = row @ rest"
    by (auto split: sum.splits)
  from queue_row_sorted[OF row] have r1: "sorted_wrt rec_less row" "\<forall>r \<in> set row. fst r = n"
    by auto
  from Cons.IH[OF rest] have r2: "sorted_wrt rec_less rest" "\<forall>r \<in> set rest. Suc n \<le> fst r"
    by auto
  have "\<forall>a \<in> set row. \<forall>b \<in> set rest. rec_less a b"
    using r1(2) r2(2) by (auto simp: rec_less_def)
  with r1 r2 q show ?case
    by (auto simp: sorted_wrt_append)
qed

lemma initialized_queue_sorted:
  "initialized_queue data tree len thrd = Inr q \<Longrightarrow> sorted_wrt rec_less q"
  unfolding initialized_queue_def using initialized_queue_sorted_from by blast

lemma initialized_queue_error:
  "initialized_queue data tree len thrd = Inl e \<Longrightarrow> e = AttributeError"
  unfolding initialized_queue_def
  by (auto dest!: collect_Inl split: sum.splits pattern_not_found.splits if_splits option.splits)

lemma candidate_mappings_error:
  "candidate_mappings tree len thrd = Inl e \<Longrightarrow> e = AttributeError"
  unfolding candidate_mappings_def
  by (auto dest!: collect_Inl split: sum.splits pattern_not_found.splits if_splits option.splits)

lemma join_error: "join im pd cur rest nq t = Inl e \<Longrightarrow> e = KeyError"
  by (induction im pd cur rest nq t rule: join.induct) (auto split: if_splits option.splits)

lemma fold_triple:
  "fold (\<lambda>(sq, indices, cand_idx) (t, im, pd).
           (add t sq None (Some cand_idx), im(indices \<mapsto> cand_idx), pd(cand_idx \<mapsto> sq)))
        cms (t, im, pd) =
   (fold (\<lambda>(sq, indices, cand_idx) t. add t sq None (Some cand_idx)) cms t,
    fold (\<lambda>(sq, indices, cand_idx) im. im(indices \<mapsto> cand_idx)) cms im,
    fold (\<lambda>(sq, indices, cand_idx) pd. pd(cand_idx \<mapsto> sq)) cms pd)"
  by (induction cms arbitrary: t im pd) auto

lemma ran_index_map:
  "ran (fold (\<lambda>(sq, indices, cand_idx) im. im(indices \<mapsto> cand_idx)) cms im)
     \<subseteq> ran im \<union> (\<lambda>(sq, indices, cand_idx). cand_idx) ` set cms"
proof (induction cms arbitrary: im)
  case Nil
  then show ?case by simp
next
  case (Cons x cms)
  obtain sq ind ci where x: "x = (sq, ind, ci)" by (cases x)
  let ?f = "\<lambda>(sq, indices, cand_idx) im. im(indices \<mapsto> cand_idx)"
  let ?g = "\<lambda>(sq, indices, cand_idx). cand_idx"
  have a: "ran (im(ind \<mapsto> ci)) \<subseteq> ran im \<union> {ci}"
    by (auto simp: ran_def)
  have b: "fold ?f (x # cms) im = fold ?f cms (im(ind \<mapsto> ci))"
    using x by simp
  have c: "?g ` set (x # cms) = insert ci (?g ` set cms)"
    using x by simp
  from Cons.IH[of "im(ind \<mapsto> ci)"] a show ?case
    unfolding b c by blast
qed

lemma run_position_error:
  "run_position queue tree len thrd = Inl e \<Longrightarrow> e = AttributeError \<or> e = KeyError"
  unfolding run_position_def
  by (auto simp: fold_triple dest: candidate_mappings_error join_error split: list.splits sum.splits)

lemma run_position_empty: "run_position [] tree len thrd = Inr ([], tree)"
  by (simp add: run_position_def)

lemma run_position_shorter:
  "run_position queue tree len thrd = Inr (q', t') \<Longrightarrow> queue \<noteq> [] \<Longrightarrow> length q' < length queue"
  unfolding run_position_def
  by (auto simp: fold_triple dest!: join_length split: list.splits sum.splits)

lemma run_position_sorted:
  "run_position queue tree len thrd = Inr (q', t') \<Longrightarrow> sorted_wrt rec_less queue \<Longrightarrow>
   sorted_wrt rec_less q'"
  unfolding run_position_def
  by (auto simp: fold_triple dest!: join_sorted split: list.splits sum.splits)

lemma run_position_idx:
  assumes "run_position queue tree len thrd = Inr (q', t')" and "r \<in> set q'"
  shows "\<exists>cms sq indices. candidate_mappings tree len thrd = Inr cms
           \<and> (sq, indices, snd (snd r)) \<in> set cms"
proof (cases queue)
  case Nil
  with assms show ?thesis by (simp add: run_position_def)
next
  case (Cons first rest)
  with assms obtain cms where cms: "candidate_mappings tree len thrd = Inr cms"
    and j: "join (fold (\<lambda>(sq, indices, cand_idx) im. im(indices \<mapsto> cand_idx)) cms Map.empty)
                 (fold (\<lambda>(sq, indices, cand_idx) pd. pd(cand_idx \<mapsto> sq)) cms Map.empty)
                 first rest []
                 (fold (\<lambda>(sq, indices, cand_idx) t. add t sq None (Some cand_idx)) cms tree)
             = Inr (q', t')"
    by (auto simp: run_position_def fold_triple split: sum.splits)
  from join_idx[OF j] assms(2)
  have "snd (snd r) \<in> ran (fold (\<lambda>(sq, indices, cand_idx) im. im(indices \<mapsto> cand_idx)) cms Map.empty)"
    by auto
  with ran_index_map[of cms Map.empty] have "snd (snd r) \<in> (\<lambda>(sq, indices, cand_idx). cand_idx) ` set cms"
    by auto
  with cms show ?thesis by force
qed

lemma collect_map: "collect f (map g xs) = collect (\<lambda>x. f (g x)) xs"
  by (induction xs) (auto split: sum.splits)

lemma collect_cong: "(\<And>x. x \<in> set xs \<Longrightarrow> f x = g x) \<Longrightarrow> collect f xs = collect g xs"
  by (induction xs) (auto split: sum.splits)

lemma enumerate_subsequences:
  "enumerate 0 (subsequences sq m) = map (\<lambda>i. (i, take m (drop i sq))) [0..<length sq + 1 - m]"
  by (simp add: enumerate_eq_zip subsequences_def zip_map2 zip_same_conv_map)

lemma map_filter_concat:
  "List.map_filter h xs = concat (map (\<lambda>x. case h x of None \<Rightarrow> [] | Some r \<Rightarrow> [r]) xs)"
  by (induction xs) (auto split: option.splits)

lemma queue_body:
  "(case pattern t w of
      Inl PatternNotFound \<Rightarrow> Inr []
    | Inr node \<Rightarrow>
        if has_count_at_least node thrd
        then (case idx node of None \<Rightarrow> Inl AttributeError | Some i \<Rightarrow> Inr [(ident, pos, i)])
        else Inr [])
   = (if frequent_in (count_at t) thrd w
      then (case idx_at t w of None \<Rightarrow> Inl AttributeError | Some i \<Rightarrow> Inr [(ident, pos, i)])
      else Inr [])"
proof (cases "pattern t w")
  case (Inl e)
  then show ?thesis by (cases e) (simp add: frequent_in_def count_at_def)
next
  case (Inr n)
  with has_count_at_least_node[OF Inr, of thrd] show ?thesis
    by (simp add: idx_at_def)
qed

lemma initialized_queue_rows:
  "initialized_queue data t m thrd
   = collect (\<lambda>(ident, sq).
       collect (\<lambda>pos.
          if frequent_in (count_at t) thrd (take m (drop pos sq))
          then (case idx_at t (take m (drop pos sq)) of
                  None \<Rightarrow> Inl AttributeError
                | Some i \<Rightarrow> Inr [(ident, pos, i)])
          else Inr [])
         [0..<length sq + 1 - m])
      (enumerate 0 data)"
  unfolding initialized_queue_def enumerate_subsequences collect_map
  by (simp add: queue_body split_def cong: if_cong option.case_cong)

lemma window_mem:
  "sq \<in> set data \<Longrightarrow> pos < length sq + 1 - m \<Longrightarrow> take m (drop pos sq) \<in> set (windows data m)"
  unfolding windows_def subsequences_def by (auto intro!: bexI[of _ sq])

lemma initialized_queue_ok:
  assumes "initialized_queue data t m thrd = Inr q" "w \<in> set (windows data m)"
    "frequent_in (count_at t) thrd w"
  shows "idx_at t w \<noteq> None"
proof -
  from assms(2) obtain sq pos where sq: "sq \<in> set data" "pos < length sq + 1 - m"
    "w = take m (drop pos sq)"
    by (auto simp: windows_def subsequences_def)
  from sq(1) obtain ident where "ident < length data" "data ! ident = sq"
    by (auto simp: in_set_conv_nth)
  then have "(ident, sq) \<in> set (enumerate 0 data)"
    by (simp add: in_set_enumerate_eq)
  with collect_Inr[OF assms(1)[unfolded initialized_queue_rows]]
  obtain zs where "collect (\<lambda>pos.
          if frequent_in (count_at t) thrd (take m (drop pos sq))
          then (case idx_at t (take m (drop pos sq)) of
                  None \<Rightarrow> Inl AttributeError
                | Some i \<Rightarrow> Inr [(ident, pos, i)])
          else Inr [])
         [0..<length sq + 1 - m] = Inr zs"
    by fastforce
  from collect_Inr[OF this] sq(2) obtain ys where
    "(if frequent_in (count_at t) thrd (take m (drop pos sq))
          then (case idx_at t (take m (drop pos sq)) of
                  None \<Rightarrow> Inl AttributeError
                | Some i \<Rightarrow> Inr [(ident, pos, i)])
          else Inr []) = Inr ys"
    by fastforce
  with assms(3) sq(3) show ?thesis by (auto split: option.splits)
qed

lemma initialized_queue_spec:
  assumes ok: "\<And>w. w \<in> set (windows data m) \<Longrightarrow> frequent_in (count_at t) thrd w
                 \<Longrightarrow> idx_at t w \<noteq> None"
    and only: "\<And>w. w \<in> set (windows data m) \<Longrightarrow> idx_at t w \<noteq> None
                 \<Longrightarrow> frequent_in (count_at t) thrd w"
  shows "initialized_queue data t m thrd = Inr (queue_spec data m (idx_at t))"
proof -
  have row: "collect (\<lambda>pos.
          if frequent_in (count_at t) thrd (take m (drop pos sq))
          then (case idx_at t (take m (drop pos sq)) of
                  None \<Rightarrow> Inl AttributeError
                | Some i \<Rightarrow> Inr [(ident, pos, i)])
          else Inr [])
         [0..<length sq + 1 - m] = Inr (queue_row m (idx_at t) ident sq)"
    if sq: "sq \<in> set data" for ident sq
  proof -
    have "(if frequent_in (count_at t) thrd (take m (drop pos sq))
          then (case idx_at t (take m (drop pos sq)) of
                  None \<Rightarrow> Inl AttributeError
                | Some i \<Rightarrow> Inr [(ident, pos, i)])
          else Inr [])
          = Inr (case map_option (\<lambda>i. (ident, pos, i)) (idx_at t (take m (drop pos sq))) of
                   None \<Rightarrow> [] | Some r \<Rightarrow> [r])"
      if "pos \<in> set [0..<length sq + 1 - m]" for pos
    proof -
      from that sq have w: "take m (drop pos sq) \<in> set (windows data m)"
        by (simp add: window_mem)
      from ok[OF w] only[OF w] show ?thesis
        by (auto split: option.splits)
    qed
    then show ?thesis
      unfolding queue_row_def map_filter_concat by (intro collect_all_Inr) blast
  qed
  have "collect (\<lambda>(ident, sq).
       collect (\<lambda>pos.
          if frequent_in (count_at t) thrd (take m (drop pos sq))
          then (case idx_at t (take m (drop pos sq)) of
                  None \<Rightarrow> Inl AttributeError
                | Some i \<Rightarrow> Inr [(ident, pos, i)])
          else Inr [])
         [0..<length sq + 1 - m])
      (enumerate 0 data)
      = Inr (concat (map (\<lambda>(ident, sq). queue_row m (idx_at t) ident sq) (enumerate 0 data)))"
  proof (rule collect_all_Inr, rule ballI)
    fix x
    assume x: "x \<in> set (enumerate 0 data)"
    obtain ident sq where e: "x = (ident, sq)" by (cases x)
    with x have "sq \<in> set data" by (auto simp: in_set_enumerate_eq)
    from row[OF this, of ident] show "(case x of (ident, sq) \<Rightarrow>
       collect (\<lambda>pos.
          if frequent_in (count_at t) thrd (take m (drop pos sq))
          then (case idx_at t (take m (drop pos sq)) of
                  None \<Rightarrow> Inl AttributeError
                | Some i \<Rightarrow> Inr [(ident, pos, i)])
          else Inr [])
         [0..<length sq + 1 - m])
       = Inr (case x of (ident, sq) \<Rightarrow> queue_row m (idx_at t) ident sq)"
      unfolding e by simp
  qed
  then show ?thesis
    by (simp add: initialized_queue_rows queue_spec_def queue_from_def)
qed

lemma prepare_obs:
  fixes thrd :: int
  assumes inv: "trie_inv data m t" and noidx: "\<And>w. length w = m \<Longrightarrow> idx_at t w = None"
  defines "t' \<equiv> assign_pattern_index t m thrd"
  shows "trie_inv data m t'"
    and "count_at t' = count_at t"
    and "\<And>w. present t' w = present t w"
    and "\<And>w. length w \<noteq> m \<Longrightarrow> idx_at t' w = idx_at t w"
    and "\<And>w. length w = m \<Longrightarrow> set w \<subseteq> set NUCLEOTIDES \<Longrightarrow> frequent_in (count_at t) thrd w
           \<Longrightarrow> idx_at t' w \<noteq> None"
    and "\<And>w. length w = m \<Longrightarrow> idx_at t' w \<noteq> None
           \<Longrightarrow> frequent_in (count_at t) thrd w \<and> set w \<subseteq> set NUCLEOTIDES"
    and "\<And>w v i. length w = m \<Longrightarrow> length v = m \<Longrightarrow> idx_at t' w = Some i \<Longrightarrow> idx_at t' v = Some i
           \<Longrightarrow> w = v"
proof -
  define fs where "fs = filter (frequent_in (count_at t) thrd) (paths_at_level t m)"
  note o = assign_pattern_index_obs[OF fs_def, folded t'_def]
  have set_fs: "set fs = {w. length w = m \<and> set w \<subseteq> set NUCLEOTIDES
                            \<and> frequent_in (count_at t) thrd w}"
    by (auto simp: fs_def set_paths_at_level dest: frequent_in_present)
  show c: "count_at t' = count_at t" by (rule ext) (rule o)
  show p: "\<And>w. present t' w = present t w" by (rule o)
  have "spelled t' = spelled t" by (rule spelled_same_seq_at) (rule o)
  moreover have "seq t' = seq t" using o(3)[of "[]"] by simp
  ultimately show "trie_inv data m t'"
    using inv by (simp add: trie_inv_def c p)
  show "\<And>w. length w \<noteq> m \<Longrightarrow> idx_at t' w = idx_at t w"
    by (rule o(4)) (simp add: set_fs)
  have nth: "\<exists>j < length fs. fs ! j = w \<and> idx_at t' w = Some j" if "w \<in> set fs" for w
    using that o(5) by (auto simp: in_set_conv_nth)
  show "\<And>w. length w = m \<Longrightarrow> set w \<subseteq> set NUCLEOTIDES \<Longrightarrow> frequent_in (count_at t) thrd w
           \<Longrightarrow> idx_at t' w \<noteq> None"
    using nth by (fastforce simp: set_fs)
  have only: "w \<in> set fs" if "length w = m" "idx_at t' w \<noteq> None" for w
  proof (rule ccontr)
    assume "w \<notin> set fs"
    from o(4)[OF this] noidx[OF that(1)] that(2) show False by simp
  qed
  show "\<And>w. length w = m \<Longrightarrow> idx_at t' w \<noteq> None
           \<Longrightarrow> frequent_in (count_at t) thrd w \<and> set w \<subseteq> set NUCLEOTIDES"
    using only by (auto simp: set_fs)
  show "w = v" if "length w = m" "length v = m" "idx_at t' w = Some i" "idx_at t' v = Some i"
    for w v i
  proof -
    from only[of w] only[of v] that have "w \<in> set fs" "v \<in> set fs" by auto
    from nth[OF this(1)] nth[OF this(2)] that(3,4) show ?thesis by auto
  qed
qed

section \<open>Folds that fill a dictionary or index the candidates\<close>

lemma fold_upd_other:
  "k \<notin> kf ` set xs \<Longrightarrow> fold (\<lambda>x m. m(kf x \<mapsto> vf x)) xs m0 k = m0 k"
  by (induction xs arbitrary: m0) auto

lemma fold_upd_distinct:
  "distinct (map kf xs) \<Longrightarrow> j < length xs \<Longrightarrow>
   fold (\<lambda>x m. m(kf x \<mapsto> vf x)) xs m0 (kf (xs ! j)) = Some (vf (xs ! j))"
proof (induction xs arbitrary: m0 j)
  case Nil
  then show ?case by simp
next
  case (Cons x xs)
  show ?case
  proof (cases j)
    case 0
    from Cons.prems(1) have "kf x \<notin> kf ` set xs" by auto
    then have "fold (\<lambda>x m. m(kf x \<mapsto> vf x)) xs (m0(kf x \<mapsto> vf x)) (kf x)
                 = (m0(kf x \<mapsto> vf x)) (kf x)"
      by (rule fold_upd_other)
    then show ?thesis unfolding 0 by (simp only: fold_simps comp_apply nth_Cons_0 fun_upd_same)
  next
    case (Suc j')
    with Cons.prems Cons.IH[of j'] show ?thesis by simp
  qed
qed

lemma fold_add_idx:
  "present (fold (\<lambda>x t. add t (pf x) None (Some (vf x))) xs t) w
     \<longleftrightarrow> present t w \<or> (\<exists>x \<in> set xs. prefix w (pf x))"
  "count_at (fold (\<lambda>x t. add t (pf x) None (Some (vf x))) xs t) w = count_at t w"
  "seq (fold (\<lambda>x t. add t (pf x) None (Some (vf x))) xs t) = seq t"
  "spelled t \<Longrightarrow> spelled (fold (\<lambda>x t. add t (pf x) None (Some (vf x))) xs t)"
proof (induction xs arbitrary: t)
  case Nil
  { case 1 show ?case by simp }
  { case 2 show ?case by simp }
  { case 3 show ?case by simp }
  { case 4 then show ?case by simp }
next
  case (Cons x xs)
  { case 1 show ?case by (auto simp: Cons.IH(1) present_add) }
  { case 2 show ?case by (simp add: Cons.IH(2) count_at_add) }
  { case 3 show ?case by (simp add: Cons.IH(3)) }
  { case 4 then show ?case by (simp add: Cons.IH(4) spelled_add) }
qed

lemma fold_add_idx_other:
  "w \<notin> pf ` set xs \<Longrightarrow>
   idx_at (fold (\<lambda>x t. add t (pf x) None (Some (vf x))) xs t) w = idx_at t w"
  by (induction xs arbitrary: t) (auto simp: idx_at_add)

lemma fold_add_idx_distinct:
  "distinct (map pf xs) \<Longrightarrow> j < length xs \<Longrightarrow>
   idx_at (fold (\<lambda>x t. add t (pf x) None (Some (vf x))) xs t) (pf (xs ! j)) = Some (vf (xs ! j))"
proof (induction xs arbitrary: t j)
  case Nil
  then show ?case by simp
next
  case (Cons x xs)
  show ?case
  proof (cases j)
    case 0
    from Cons.prems(1) have "pf x \<notin> pf ` set xs" by auto
    then have "idx_at (fold (\<lambda>x t. add t (pf x) None (Some (vf x))) xs
                         (add t (pf x) None (Some (vf x)))) (pf x)
                 = idx_at (add t (pf x) None (Some (vf x))) (pf x)"
      by (rule fold_add_idx_other)
    with 0 show ?thesis by (simp add: idx_at_add)
  next
    case (Suc j')
    with Cons.prems Cons.IH[of j'] show ?thesis by simp
  qed
qed

lemma count_list_filter: "count_list (filter P xs) x = (if P x then count_list xs x else 0)"
  by (induction xs) auto

lemma take_windows: "w \<in> set (windows data (Suc m)) \<Longrightarrow> take m w \<in> set (windows data m)"
proof -
  assume "w \<in> set (windows data (Suc m))"
  then obtain sq pos where sq: "sq \<in> set data" "pos < length sq + 1 - Suc m"
    "w = take (Suc m) (drop pos sq)"
    by (auto simp: windows_def subsequences_def)
  then have "take m w = take m (drop pos sq)" by (simp add: min_def)
  moreover from sq have "pos < length sq + 1 - m" by simp
  ultimately show ?thesis using sq(1) by (simp add: window_mem)
qed

lemma snoc_parts:
  assumes "length w = Suc m" "0 < m" "take m w = p" "drop 1 w = tl p @ [s]"
  shows "w = p @ [s]"
proof -
  from assms(1) obtain u x where w: "w = u @ [x]" "length u = m"
    by (metis length_Suc_conv_rev)
  with assms(3) have u: "u = p" by simp
  from w assms(2) obtain a u' where "u = a # u'" by (cases u) auto
  with w u assms(4) have "x = s" by auto
  with w u show ?thesis by simp
qed

section \<open>The items of the candidate generator with indices\<close>

lemma cand_pairs_idx:
  assumes inv: "trie_inv data m t" and qi: "queue_inv data thrd m t q"
    and mem: "(p, s) \<in> set (cand_pairs (count_at t) thrd (paths_at_level t m))"
  shows "length p = m" "0 < m" "set p \<subseteq> set NUCLEOTIDES" "s \<in> set NUCLEOTIDES"
    "length (tl p @ [s]) = m" "idx_at t p \<noteq> None" "idx_at t (tl p @ [s]) \<noteq> None"
    "p \<noteq> []" "frequent_in (count_at t) thrd p" "frequent_in (count_at t) thrd (tl p @ [s])"
proof -
  from mem have a: "p \<in> set (paths_at_level t m)" "frequent_in (count_at t) thrd p"
    "s \<in> set NUCLEOTIDES" "frequent_in (count_at t) thrd (tl p @ [s])"
    by (simp_all add: cand_pairs_mem)
  from a(1) show lp: "length p = m" and sp: "set p \<subseteq> set NUCLEOTIDES"
    by (simp_all add: set_paths_at_level)
  from a(3) show "s \<in> set NUCLEOTIDES" .
  from a(2) show "frequent_in (count_at t) thrd p" .
  from a(4) show "frequent_in (count_at t) thrd (tl p @ [s])" .
  from a(4) have "present t (tl p @ [s])" by (rule frequent_in_present)
  with inv have "length (tl p @ [s]) \<le> m" unfolding trie_inv_def by blast
  with lp show m: "0 < m" and l2: "length (tl p @ [s]) = m" by auto
  with lp show "p \<noteq> []" by auto
  from qi lp sp a(2) show "idx_at t p \<noteq> None" by (simp add: queue_inv_def)
  have "set (tl p @ [s]) \<subseteq> set NUCLEOTIDES"
    using sp a(3) by (cases p) auto
  with qi l2 a(4) show "idx_at t (tl p @ [s]) \<noteq> None" by (simp add: queue_inv_def)
qed

lemma length_cand_recs:
  "length (cand_recs t m thrd) = length (cand_pairs (count_at t) thrd (paths_at_level t m))"
  by (simp add: cand_recs_def)

lemma cand_recs_nth:
  assumes "j < length (cand_pairs (count_at t) thrd (paths_at_level t m))"
    and "cand_pairs (count_at t) thrd (paths_at_level t m) ! j = (p, s)"
  shows "cand_recs t m thrd ! j = (p @ [s], (the (idx_at t p), the (idx_at t (tl p @ [s]))), j)"
  using assms by (simp add: cand_recs_def nth_enumerate_eq)

lemma cand_recs_fst:
  "map fst (cand_recs t m thrd)
     = map (\<lambda>(p, s). p @ [s]) (cand_pairs (count_at t) thrd (paths_at_level t m))"
  by (rule nth_equalityI) (simp_all add: cand_recs_def nth_enumerate_eq split_def)

lemma cand_recs_idx: "map (\<lambda>x. snd (snd x)) (cand_recs t m thrd) = [0..<length (cand_recs t m thrd)]"
  by (rule nth_equalityI) (simp_all add: cand_recs_def nth_enumerate_eq split_def)

lemma cand_recs_candidates:
  assumes "spelled t" "seq t = []"
  shows "map fst (cand_recs t m thrd) = candidates t (Suc m) thrd"
  using assms by (simp add: cand_recs_fst candidates_pairs)

lemma distinct_cand_recs_fst: "distinct (map fst (cand_recs t m thrd))"
proof -
  have "inj_on (\<lambda>(p, s). p @ [s]) A" for A :: "(string \<times> char) set"
    by (auto simp: inj_on_def)
  then show ?thesis
    unfolding cand_recs_fst
    by (simp add: distinct_map distinct_cand_pairs distinct_paths_at_level)
qed

lemma distinct_cand_recs_keys:
  assumes inv: "trie_inv data m t" and qi: "queue_inv data thrd m t q"
  shows "distinct (map (\<lambda>x. fst (snd x)) (cand_recs t m thrd))"
proof -
  let ?cps = "cand_pairs (count_at t) thrd (paths_at_level t m)"
  let ?k = "\<lambda>(p, s). (the (idx_at t p), the (idx_at t (tl p @ [s])))"
  have eq: "map (\<lambda>x. fst (snd x)) (cand_recs t m thrd) = map ?k ?cps"
    by (rule nth_equalityI) (simp_all add: cand_recs_def nth_enumerate_eq split_def)
  have "inj_on ?k (set ?cps)"
  proof (rule inj_onI)
    fix a b assume a: "a \<in> set ?cps" and b: "b \<in> set ?cps" and k: "?k a = ?k b"
    obtain p s where ab: "a = (p, s)" by (cases a)
    obtain p' s' where bb: "b = (p', s')" by (cases b)
    note A = cand_pairs_idx[OF inv qi a[unfolded ab]]
    note B = cand_pairs_idx[OF inv qi b[unfolded bb]]
    from A(6) B(6) k ab bb have "idx_at t p = idx_at t p'" by auto
    with A(1) B(1) A(6) qi have pp: "p = p'" by (auto simp: queue_inv_def)
    from A(7) B(7) k ab bb have "idx_at t (tl p @ [s]) = idx_at t (tl p' @ [s'])" by auto
    with A(5) B(5) A(7) qi have "tl p @ [s] = tl p' @ [s']"
      unfolding queue_inv_def by (metis not_None_eq)
    with pp ab bb show "a = b" by simp
  qed
  then show ?thesis unfolding eq by (simp add: distinct_map distinct_cand_pairs distinct_paths_at_level)
qed

lemma cand_recs_mem:
  assumes "x \<in> set (cand_recs t m thrd)"
  obtains j p s where "j < length (cand_recs t m thrd)" "cand_recs t m thrd ! j = x"
    "cand_pairs (count_at t) thrd (paths_at_level t m) ! j = (p, s)"
    "(p, s) \<in> set (cand_pairs (count_at t) thrd (paths_at_level t m))"
    "x = (p @ [s], (the (idx_at t p), the (idx_at t (tl p @ [s]))), j)"
proof -
  from assms obtain j where j: "j < length (cand_recs t m thrd)" "cand_recs t m thrd ! j = x"
    by (auto simp: in_set_conv_nth)
  obtain p s where ps: "cand_pairs (count_at t) thrd (paths_at_level t m) ! j = (p, s)"
    by (cases "cand_pairs (count_at t) thrd (paths_at_level t m) ! j")
  from j(1) have jl: "j < length (cand_pairs (count_at t) thrd (paths_at_level t m))"
    by (simp add: length_cand_recs)
  then have "(p, s) \<in> set (cand_pairs (count_at t) thrd (paths_at_level t m))"
    using ps by (metis nth_mem)
  moreover from cand_recs_nth[OF jl ps] j(2)
  have "x = (p @ [s], (the (idx_at t p), the (idx_at t (tl p @ [s]))), j)" by simp
  ultimately show ?thesis using that j ps by blast
qed

lemma cand_recs_length_fst:
  assumes inv: "trie_inv data m t" and qi: "queue_inv data thrd m t q"
    and "x \<in> set (cand_recs t m thrd)"
  shows "length (fst x) = Suc m"
proof -
  from assms(3) obtain j p s where
    "(p, s) \<in> set (cand_pairs (count_at t) thrd (paths_at_level t m))"
    "x = (p @ [s], (the (idx_at t p), the (idx_at t (tl p @ [s]))), j)"
    by (rule cand_recs_mem)
  with cand_pairs_idx(1)[OF inv qi this(1)] show ?thesis by simp
qed

lemma indexed_obs:
  "present (indexed t m thrd) w \<longleftrightarrow> present t w \<or> (\<exists>x \<in> set (cand_recs t m thrd). prefix w (fst x))"
  "count_at (indexed t m thrd) w = count_at t w"
  "seq (indexed t m thrd) = seq t"
  "spelled t \<Longrightarrow> spelled (indexed t m thrd)"
  "w \<notin> fst ` set (cand_recs t m thrd) \<Longrightarrow> idx_at (indexed t m thrd) w = idx_at t w"
  "j < length (cand_recs t m thrd) \<Longrightarrow> idx_at (indexed t m thrd) (fst (cand_recs t m thrd ! j)) = Some j"
proof -
  show "present (indexed t m thrd) w \<longleftrightarrow> present t w \<or> (\<exists>x \<in> set (cand_recs t m thrd). prefix w (fst x))"
    unfolding indexed_def by (rule fold_add_idx(1))
  show "count_at (indexed t m thrd) w = count_at t w"
    unfolding indexed_def by (rule fold_add_idx(2))
  show "seq (indexed t m thrd) = seq t"
    unfolding indexed_def by (rule fold_add_idx(3))
  show "spelled t \<Longrightarrow> spelled (indexed t m thrd)"
    unfolding indexed_def by (rule fold_add_idx(4))
  show "w \<notin> fst ` set (cand_recs t m thrd) \<Longrightarrow> idx_at (indexed t m thrd) w = idx_at t w"
    unfolding indexed_def by (rule fold_add_idx_other)
  assume j: "j < length (cand_recs t m thrd)"
  have "snd (snd (cand_recs t m thrd ! j)) = j"
    using arg_cong[OF cand_recs_idx[of t m thrd], of "\<lambda>l. l ! j"] j by simp
  with fold_add_idx_distinct[OF distinct_cand_recs_fst j, of "\<lambda>x. snd (snd x)" t]
  show "idx_at (indexed t m thrd) (fst (cand_recs t m thrd ! j)) = Some j"
    unfolding indexed_def by simp
qed

lemma pattern_d_of_nth:
  assumes j: "j < length (cand_recs t m thrd)"
  shows "pattern_d_of t m thrd j = Some (fst (cand_recs t m thrd ! j))"
proof -
  have d: "distinct (map (\<lambda>x. snd (snd x)) (cand_recs t m thrd))"
    unfolding cand_recs_idx by simp
  have "snd (snd (cand_recs t m thrd ! j)) = j"
    using arg_cong[OF cand_recs_idx[of t m thrd], of "\<lambda>l. l ! j"] j by simp
  with fold_upd_distinct[OF d j, of fst Map.empty] show ?thesis
    unfolding pattern_d_of_def by simp
qed

lemma index_map_of_nth:
  assumes inv: "trie_inv data m t" and qi: "queue_inv data thrd m t q"
    and j: "j < length (cand_recs t m thrd)"
  shows "index_map_of t m thrd (fst (snd (cand_recs t m thrd ! j))) = Some j"
proof -
  have "snd (snd (cand_recs t m thrd ! j)) = j"
    using arg_cong[OF cand_recs_idx[of t m thrd], of "\<lambda>l. l ! j"] j by simp
  with fold_upd_distinct[OF distinct_cand_recs_keys[OF inv qi] j, of "\<lambda>x. snd (snd x)" Map.empty]
  show ?thesis unfolding index_map_of_def by simp
qed

lemma index_map_of_Some:
  assumes "index_map_of t m thrd k = Some c"
  shows "k \<in> (\<lambda>x. fst (snd x)) ` set (cand_recs t m thrd)"
proof (rule ccontr)
  assume "k \<notin> (\<lambda>x. fst (snd x)) ` set (cand_recs t m thrd)"
  from fold_upd_other[OF this, of "\<lambda>x. snd (snd x)" Map.empty] assms show False
    unfolding index_map_of_def by simp
qed

lemma ran_index_map_of:
  assumes inv: "trie_inv data m t" and qi: "queue_inv data thrd m t q"
    and "c \<in> ran (index_map_of t m thrd)"
  shows "c < length (cand_recs t m thrd)"
proof -
  from assms(3) obtain k where k: "index_map_of t m thrd k = Some c" by (auto simp: ran_def)
  from index_map_of_Some[OF k] obtain j where
    j: "j < length (cand_recs t m thrd)" "k = fst (snd (cand_recs t m thrd ! j))"
    by (auto simp: in_set_conv_nth)
  with index_map_of_nth[OF inv qi j(1)] k show ?thesis by simp
qed

section \<open>One call of \<open>run_position\<close>\<close>

lemma pair_idx_indexed:
  assumes inv: "trie_inv data m t" and qi: "queue_inv data thrd m t q" and lw: "length w = Suc m"
  shows "pair_idx (index_map_of t m thrd) (idx_at t) m w = idx_at (indexed t m thrd) w"
proof (cases "w \<in> fst ` set (cand_recs t m thrd)")
  case True
  then obtain x where x: "x \<in> set (cand_recs t m thrd)" "w = fst x" by auto
  from x(1) obtain j p s where j: "j < length (cand_recs t m thrd)" "cand_recs t m thrd ! j = x"
    and mem: "(p, s) \<in> set (cand_pairs (count_at t) thrd (paths_at_level t m))"
    and xe: "x = (p @ [s], (the (idx_at t p), the (idx_at t (tl p @ [s]))), j)"
    by (rule cand_recs_mem)
  note P = cand_pairs_idx[OF inv qi mem]
  from x(2) xe have w: "w = p @ [s]" by simp
  from P(6) obtain i1 where i1: "idx_at t p = Some i1" by auto
  from P(7) obtain i2 where i2: "idx_at t (tl p @ [s]) = Some i2" by auto
  from w P(1) have tk: "take m w = p" by simp
  from w P(8) have dr: "drop (Suc 0) w = tl p @ [s]" by (cases p) auto
  from index_map_of_nth[OF inv qi j(1)] j(2) xe i1 i2
  have "index_map_of t m thrd (i1, i2) = Some j" by simp
  then have "pair_idx (index_map_of t m thrd) (idx_at t) m w = Some j"
    by (simp add: pair_idx_def tk dr i1 i2)
  moreover from indexed_obs(6)[OF j(1)] j(2) x(2) have "idx_at (indexed t m thrd) w = Some j"
    by simp
  ultimately show ?thesis by simp
next
  case False
  from inv lw have "\<not> present t w" unfolding trie_inv_def by auto
  then have "idx_at t w = None" by (rule idx_at_absent)
  with indexed_obs(5)[OF False] have r: "idx_at (indexed t m thrd) w = None" by simp
  have "pair_idx (index_map_of t m thrd) (idx_at t) m w = None"
  proof (rule ccontr)
    assume "pair_idx (index_map_of t m thrd) (idx_at t) m w \<noteq> None"
    then obtain i1 i2 c where g1: "idx_at t (take m w) = Some i1"
      and g2: "idx_at t (drop 1 w) = Some i2"
      and im: "index_map_of t m thrd (i1, i2) = Some c"
      by (auto simp: pair_idx_def split: option.splits)
    from index_map_of_Some[OF im] obtain x where x: "x \<in> set (cand_recs t m thrd)"
      "(i1, i2) = fst (snd x)" by auto
    from x(1) obtain j p s where
      mem: "(p, s) \<in> set (cand_pairs (count_at t) thrd (paths_at_level t m))"
      and xe: "x = (p @ [s], (the (idx_at t p), the (idx_at t (tl p @ [s]))), j)"
      by (rule cand_recs_mem)
    note P = cand_pairs_idx[OF inv qi mem]
    from x(2) xe P(6) P(7) have e1: "idx_at t p = Some i1" and e2: "idx_at t (tl p @ [s]) = Some i2"
      by auto
    from lw have l1: "length (take m w) = m" and l2: "length (drop 1 w) = m" by simp_all
    from qi l1 P(1) g1 e1 have tk: "take m w = p" unfolding queue_inv_def by blast
    from qi l2 P(5) g2 e2 have dr: "drop 1 w = tl p @ [s]" unfolding queue_inv_def by blast
    from snoc_parts[OF lw P(2) tk dr] have "w = p @ [s]" .
    with xe have "w = fst x" by simp
    with x(1) False show False by auto
  qed
  with r show ?thesis by simp
qed

lemma run_position_unfold:
  assumes inv: "trie_inv data m t" and qi: "queue_inv data thrd m t q" and ne: "q \<noteq> []"
  shows "run_position q t (Suc m) thrd
         = Inr (joined_list (index_map_of t m thrd) q,
                fold (\<lambda>w t. increment_count t w 1)
                     (map (\<lambda>r. the (pattern_d_of t m thrd (snd (snd r))))
                          (joined_list (index_map_of t m thrd) q))
                     (indexed t m thrd))"
proof -
  from inv have sp: "spelled t" "seq t = []" by (simp_all add: trie_inv_def)
  have cm: "candidate_mappings t (Suc m) thrd = Inr (cand_recs t m thrd)"
    unfolding cand_recs_def
    by (rule candidate_mappings_pairs[OF sp]) (use cand_pairs_idx[OF inv qi] in blast)
  from ne obtain first rest where q: "q = first # rest" by (cases q) auto
  have f1: "(\<lambda>(sq, indices, cand_idx) t. add t sq None (Some cand_idx))
            = (\<lambda>x t. add t (fst x) None (Some (snd (snd x))))"
    by (auto simp: fun_eq_iff)
  have f2: "(\<lambda>(sq, indices, cand_idx) (im :: nat \<times> nat \<rightharpoonup> nat). im(indices \<mapsto> cand_idx))
            = (\<lambda>x im. im(fst (snd x) \<mapsto> snd (snd x)))"
    by (auto simp: fun_eq_iff)
  have f3: "(\<lambda>(sq, indices, cand_idx) (pd :: nat \<rightharpoonup> string). pd(cand_idx \<mapsto> sq))
            = (\<lambda>x pd. pd(snd (snd x) \<mapsto> fst x))"
    by (auto simp: fun_eq_iff)
  have ft: "fold (\<lambda>(sq, indices, cand_idx) (t, im, pd).
                   (add t sq None (Some cand_idx), im(indices \<mapsto> cand_idx), pd(cand_idx \<mapsto> sq)))
                 (cand_recs t m thrd) (t, Map.empty, Map.empty)
            = (indexed t m thrd, index_map_of t m thrd, pattern_d_of t m thrd)"
    unfolding fold_triple f1 f2 f3 indexed_def index_map_of_def pattern_d_of_def ..
  have pd: "\<And>c. c \<in> ran (index_map_of t m thrd) \<Longrightarrow> pattern_d_of t m thrd c \<noteq> None"
  proof -
    fix c assume "c \<in> ran (index_map_of t m thrd)"
    then have "c < length (cand_recs t m thrd)" by (rule ran_index_map_of[OF inv qi])
    then show "pattern_d_of t m thrd c \<noteq> None" by (simp add: pattern_d_of_nth)
  qed
  have jn: "join (index_map_of t m thrd) (pattern_d_of t m thrd) first rest [] (indexed t m thrd)
            = Inr (joined (index_map_of t m thrd) first rest,
                   fold (\<lambda>r u. increment_count u (the (pattern_d_of t m thrd (snd (snd r)))) 1)
                        (joined (index_map_of t m thrd) first rest) (indexed t m thrd))"
    by (rule trans[OF join_joined[OF pd]], assumption) simp
  show ?thesis
    unfolding run_position_def q
    by (simp only: list.case cm sum.case ft prod.case jn joined_list_def fold_map comp_def)
qed

lemma cand_recs_set:
  assumes inv: "trie_inv data m t"
  shows "fst ` set (cand_recs t m thrd) = cand_set (count_at t) thrd m"
proof -
  from inv have sp: "spelled t" "seq t = []" by (simp_all add: trie_inv_def)
  have "fst ` set (cand_recs t m thrd) = set (map fst (cand_recs t m thrd))" by simp
  also have "\<dots> = set (candidates t (Suc m) thrd)" by (simp only: cand_recs_candidates[OF sp])
  also have "\<dots> = cand_set (count_at t) thrd m" by (rule set_candidates[OF sp])
  finally show ?thesis .
qed

lemma idx_at_indexed_Some:
  assumes inv: "trie_inv data m t" and lw: "length w = Suc m"
    and i: "idx_at (indexed t m thrd) w = Some i"
  shows "i < length (cand_recs t m thrd) \<and> fst (cand_recs t m thrd ! i) = w"
proof -
  from inv lw have "\<not> present t w" unfolding trie_inv_def by auto
  then have n: "idx_at t w = None" by (rule idx_at_absent)
  have "w \<in> fst ` set (cand_recs t m thrd)"
  proof (rule ccontr)
    assume "w \<notin> fst ` set (cand_recs t m thrd)"
    from indexed_obs(5)[OF this] n i show False by simp
  qed
  then obtain j where j: "j < length (cand_recs t m thrd)" "fst (cand_recs t m thrd ! j) = w"
    by (auto simp: in_set_conv_nth)
  from indexed_obs(6)[OF j(1)] j(2) i have "i = j" by simp
  with j show ?thesis by simp
qed

lemma idx_at_indexed_iff:
  assumes inv: "trie_inv data m t" and lw: "length w = Suc m"
  shows "idx_at (indexed t m thrd) w \<noteq> None \<longleftrightarrow> w \<in> cand_set (count_at t) thrd m"
proof
  assume "idx_at (indexed t m thrd) w \<noteq> None"
  then obtain i where "idx_at (indexed t m thrd) w = Some i" by auto
  from idx_at_indexed_Some[OF inv lw this] have "w \<in> fst ` set (cand_recs t m thrd)"
    by (metis image_eqI nth_mem)
  then show "w \<in> cand_set (count_at t) thrd m" by (simp only: cand_recs_set[OF inv])
next
  assume "w \<in> cand_set (count_at t) thrd m"
  then have "w \<in> fst ` set (cand_recs t m thrd)" by (simp only: cand_recs_set[OF inv])
  then obtain j where j: "j < length (cand_recs t m thrd)" "fst (cand_recs t m thrd ! j) = w"
    by (auto simp: in_set_conv_nth)
  from indexed_obs(6)[OF j(1)] j(2) show "idx_at (indexed t m thrd) w \<noteq> None" by simp
qed

lemma run_position_nonempty:
  assumes inv: "trie_inv data m t" and qi: "queue_inv data thrd m t q" and ne: "q \<noteq> []"
  shows "run_position q t (Suc m) thrd
         = Inr (queue_spec data (Suc m) (idx_at (indexed t m thrd)),
                fold (\<lambda>w u. increment_count u w 1)
                     (filter (\<lambda>w. idx_at (indexed t m thrd) w \<noteq> None) (windows data (Suc m)))
                     (indexed t m thrd))"
proof -
  from qi have q: "q = queue_spec data m (idx_at t)" by (simp add: queue_inv_def)
  have a: "joined_list (index_map_of t m thrd) q
           = queue_spec data (Suc m) (idx_at (indexed t m thrd))"
    unfolding q joined_queue_spec
    by (rule queue_spec_cong) (rule pair_idx_indexed[OF inv qi], rule windows_length)
  have b: "map (\<lambda>r. the (pattern_d_of t m thrd (snd (snd r))))
               (queue_spec data (Suc m) (idx_at (indexed t m thrd)))
           = filter (\<lambda>w. idx_at (indexed t m thrd) w \<noteq> None) (windows data (Suc m))"
  proof (rule queue_spec_patterns)
    fix w i assume w: "w \<in> set (windows data (Suc m))" and i: "idx_at (indexed t m thrd) w = Some i"
    from w have lw: "length w = Suc m" by (rule windows_length)
    from idx_at_indexed_Some[OF inv lw i] pattern_d_of_nth[of i t m thrd]
    show "pattern_d_of t m thrd i = Some w" by simp
  qed
  show ?thesis unfolding run_position_unfold[OF inv qi ne] a b ..
qed

lemma position_tree_obs:
  fixes thrd :: int
  assumes inv: "trie_inv data m t"
  defines "t' \<equiv> fold (\<lambda>w u. increment_count u w 1)
                     (filter (\<lambda>w. idx_at (indexed t m thrd) w \<noteq> None) (windows data (Suc m)))
                     (indexed t m thrd)"
  shows "present t' w \<longleftrightarrow> present t w \<or> (\<exists>c \<in> cand_set (count_at t) thrd m. prefix w c)"
    and "count_at t' w = extend_counts data thrd m (count_at t) w"
    and "idx_at t' w = idx_at (indexed t m thrd) w"
    and "seq t' = []"
    and "spelled t'"
proof -
  let ?t1 = "indexed t m thrd"
  let ?ws = "filter (\<lambda>w. idx_at ?t1 w \<noteq> None) (windows data (Suc m))"
  from inv have sp: "spelled t" "seq t = []" by (simp_all add: trie_inv_def)
  have "present t' w \<longleftrightarrow> present ?t1 w" unfolding t'_def by (rule fold_increment_count(1))
  also have "\<dots> \<longleftrightarrow> present t w \<or> (\<exists>x \<in> set (cand_recs t m thrd). prefix w (fst x))"
    by (rule indexed_obs(1))
  also have "(\<exists>x \<in> set (cand_recs t m thrd). prefix w (fst x))
             \<longleftrightarrow> (\<exists>c \<in> fst ` set (cand_recs t m thrd). prefix w c)" by auto
  finally show "present t' w \<longleftrightarrow> present t w \<or> (\<exists>c \<in> cand_set (count_at t) thrd m. prefix w c)"
    by (simp only: cand_recs_set[OF inv])
  show "idx_at t' w = idx_at ?t1 w" unfolding t'_def by (rule fold_increment_count(2))
  show "seq t' = []" unfolding t'_def by (simp add: fold_increment_count(3) indexed_obs(3) sp)
  show "spelled t'" unfolding t'_def by (simp add: fold_increment_count(4) indexed_obs(4) sp)
  have c1: "count_at ?t1 w = count_at t w" by (rule indexed_obs(2))
  have mem: "w \<in> set ?ws \<longleftrightarrow> w \<in> cand_set (count_at t) thrd m \<and> 0 < occ data w"
  proof
    assume "w \<in> set ?ws"
    then have w: "w \<in> set (windows data (Suc m))" "idx_at ?t1 w \<noteq> None" by simp_all
    from w(1) have lw: "length w = Suc m" by (rule windows_length)
    from w(1) lw have "0 < occ data w" by (simp add: occ_pos_iff)
    moreover from w(2) have "w \<in> cand_set (count_at t) thrd m"
      by (simp only: idx_at_indexed_iff[OF inv lw])
    ultimately show "w \<in> cand_set (count_at t) thrd m \<and> 0 < occ data w" by simp
  next
    assume a: "w \<in> cand_set (count_at t) thrd m \<and> 0 < occ data w"
    then have lw: "length w = Suc m" using cand_set_length by blast
    with a have "w \<in> set (windows data (Suc m))" by (simp add: occ_pos_iff)
    moreover from a have "idx_at ?t1 w \<noteq> None" by (simp only: idx_at_indexed_iff[OF inv lw])
    ultimately show "w \<in> set ?ws" by simp
  qed
  show "count_at t' w = extend_counts data thrd m (count_at t) w"
  proof (cases "w \<in> set ?ws")
    case True
    with mem have cs: "w \<in> cand_set (count_at t) thrd m" "0 < occ data w" by simp_all
    then have lw: "length w = Suc m" using cand_set_length by blast
    from True have ix: "idx_at ?t1 w \<noteq> None" by simp
    have pr: "present ?t1 w"
    proof (rule ccontr)
      assume "\<not> present ?t1 w"
      then have "idx_at ?t1 w = None" by (rule idx_at_absent)
      with ix show False by simp
    qed
    from inv lw have "\<not> present t w" unfolding trie_inv_def by auto
    then have cn: "count_at t w = None" by (rule count_at_absent)
    have "count_list ?ws w
          = (if idx_at ?t1 w \<noteq> None then count_list (windows data (Suc m)) w else 0)"
      by (rule count_list_filter)
    with ix have "count_list ?ws w = count_list (windows data (Suc m)) w" by simp
    then have cl: "count_list ?ws w = occ data w"
      by (simp only: count_list_windows[OF lw])
    have "count_at t' w = Some (int (count_list ?ws w) + (case count_at ?t1 w of None \<Rightarrow> 0 | Some k \<Rightarrow> k))"
      unfolding t'_def fold_increment_count(5) using True pr by simp
    also have "\<dots> = Some (int (occ data w))" unfolding cl c1 cn by simp
    finally show ?thesis using cs by (simp add: extend_counts_def)
  next
    case False
    then have "count_at t' w = count_at ?t1 w"
      unfolding t'_def fold_increment_count(5) by (simp only: simp_thms if_False)
    with False mem c1 show ?thesis by (auto simp: extend_counts_def)
  qed
qed

lemma extend_counts_inv:
  assumes "\<And>w c. f w = Some c \<Longrightarrow> c = int (occ data w) \<and> 0 < occ data w"
    and "extend_counts data thrd m f w = Some c"
  shows "c = int (occ data w) \<and> 0 < occ data w"
  using assms by (auto simp: extend_counts_def split: if_splits)

lemma trie_inv_mono: "trie_inv data m t \<Longrightarrow> trie_inv data (Suc m) t"
  unfolding trie_inv_def by (meson le_SucI)

lemma trie_inv_absent:
  assumes "trie_inv data m t" "m < length w"
  shows "\<not> present t w" "count_at t w = None" "idx_at t w = None"
proof -
  from assms show a: "\<not> present t w" unfolding trie_inv_def by (meson not_le)
  from a show "count_at t w = None" by (rule count_at_absent)
  from a show "idx_at t w = None" by (rule idx_at_absent)
qed

lemma run_position_step_nonempty:
  fixes thrd :: int
  assumes inv: "trie_inv data m t" and qi: "queue_inv data thrd m t q" and ne: "q \<noteq> []"
  defines "t' \<equiv> fold (\<lambda>w u. increment_count u w 1)
                     (filter (\<lambda>w. idx_at (indexed t m thrd) w \<noteq> None) (windows data (Suc m)))
                     (indexed t m thrd)"
  defines "q' \<equiv> queue_spec data (Suc m) (idx_at (indexed t m thrd))"
  shows "run_position q t (Suc m) thrd = Inr (q', t')"
    and "trie_inv data (Suc m) t'"
    and "queue_inv data thrd (Suc m) t' q'"
    and "count_at t' = extend_counts data thrd m (count_at t)"
    and "\<And>w. length w \<le> m \<Longrightarrow> idx_at t' w = idx_at t w"
    and "\<And>w. length w = Suc m \<Longrightarrow> idx_at t' w \<noteq> None \<longleftrightarrow> w \<in> cand_set (count_at t) thrd m"
proof -
  note obs = position_tree_obs[OF inv, of thrd, folded t'_def]
  show "run_position q t (Suc m) thrd = Inr (q', t')"
    unfolding t'_def q'_def by (rule run_position_nonempty[OF inv qi ne])
  show cnt: "count_at t' = extend_counts data thrd m (count_at t)"
    by (rule ext) (rule obs(2))
  have ix: "idx_at t' = idx_at (indexed t m thrd)" by (rule ext) (rule obs(3))
  show "trie_inv data (Suc m) t'"
    unfolding trie_inv_def
  proof (intro conjI allI impI)
    show "spelled t'" by (rule obs(5))
    show "seq t' = []" by (rule obs(4))
  next
    fix w assume "present t' w"
    then consider "present t w" | c where "c \<in> cand_set (count_at t) thrd m" "prefix w c"
      unfolding obs(1) by blast
    then show "length w \<le> Suc m"
    proof cases
      case 1
      with inv show ?thesis unfolding trie_inv_def by (meson le_SucI)
    next
      case 2
      from 2(1) have "length c = Suc m" by (rule cand_set_length)
      with 2(2) show ?thesis by (metis prefix_length_le)
    qed
  next
    fix w c assume "count_at t' w = Some c"
    then have e: "extend_counts data thrd m (count_at t) w = Some c" by (simp only: cnt)
    from inv have "\<And>w c. count_at t w = Some c \<Longrightarrow> c = int (occ data w) \<and> 0 < occ data w"
      unfolding trie_inv_def by blast
    from extend_counts_inv[OF this e] show "c = int (occ data w)" and "0 < occ data w"
      by simp_all
  qed
  show "queue_inv data thrd (Suc m) t' q'"
    unfolding queue_inv_def
  proof (intro conjI allI impI)
    fix w assume lw: "length w = Suc m" and fr: "frequent_in (count_at t') thrd w"
    from fr obtain c where "extend_counts data thrd m (count_at t) w = Some c"
      unfolding cnt frequent_in_def by (auto split: option.splits)
    moreover from trie_inv_absent(2)[OF inv, of w] lw have "count_at t w = None" by simp
    ultimately have "w \<in> cand_set (count_at t) thrd m"
      by (auto simp: extend_counts_def split: if_splits)
    then show "idx_at t' w \<noteq> None" unfolding ix by (simp only: idx_at_indexed_iff[OF inv lw])
  next
    fix w v i assume lw: "length w = Suc m" and lv: "length v = Suc m"
      and a: "idx_at t' w = Some i" and b: "idx_at t' v = Some i"
    from idx_at_indexed_Some[OF inv lw a[unfolded ix]] idx_at_indexed_Some[OF inv lv b[unfolded ix]]
    show "w = v" by simp
  next
    show "q' = queue_spec data (Suc m) (idx_at t')" unfolding q'_def ix ..
  qed
  show "\<And>w. length w \<le> m \<Longrightarrow> idx_at t' w = idx_at t w"
  proof -
    fix w :: string assume lw: "length w \<le> m"
    have "w \<notin> fst ` set (cand_recs t m thrd)"
    proof
      assume "w \<in> fst ` set (cand_recs t m thrd)"
      then have "w \<in> cand_set (count_at t) thrd m" by (simp only: cand_recs_set[OF inv])
      then have "length w = Suc m" by (rule cand_set_length)
      with lw show False by simp
    qed
    from indexed_obs(5)[OF this] show "idx_at t' w = idx_at t w" unfolding ix .
  qed
  show "\<And>w. length w = Suc m \<Longrightarrow> idx_at t' w \<noteq> None \<longleftrightarrow> w \<in> cand_set (count_at t) thrd m"
    unfolding ix by (rule idx_at_indexed_iff[OF inv])
qed

lemma run_position_step_empty:
  assumes inv: "trie_inv data m t" and qi: "queue_inv data thrd m t []"
  shows "trie_inv data (Suc m) t"
    and "queue_inv data thrd (Suc m) t []"
    and "count_at t = extend_counts data thrd m (count_at t)"
proof -
  show "trie_inv data (Suc m) t" using inv by (rule trie_inv_mono)
  show "queue_inv data thrd (Suc m) t []"
    unfolding queue_inv_def
  proof (intro conjI allI impI)
    fix w assume lw: "length w = Suc m" and fr: "frequent_in (count_at t) thrd w"
    from trie_inv_absent(2)[OF inv, of w] lw have "count_at t w = None" by simp
    with fr show "idx_at t w \<noteq> None" by (simp add: frequent_in_def)
  next
    fix w v i assume lw: "length w = Suc m" and a: "idx_at t w = Some i"
    from trie_inv_absent(3)[OF inv, of w] lw a show "w = v" by simp
  next
    have "\<forall>w \<in> set (windows data (Suc m)). idx_at t w = None"
    proof
      fix w assume "w \<in> set (windows data (Suc m))"
      then have "length w = Suc m" by (rule windows_length)
      with trie_inv_absent(3)[OF inv, of w] show "idx_at t w = None" by simp
    qed
    then have "queue_spec data (Suc m) (idx_at t) = []" by (rule queue_spec_empty_iff[THEN iffD2])
    then show "[] = queue_spec data (Suc m) (idx_at t)" by simp
  qed
  show "count_at t = extend_counts data thrd m (count_at t)"
  proof (rule ext)
    fix w
    have "\<not> (w \<in> cand_set (count_at t) thrd m \<and> 0 < occ data w)"
    proof
      assume a: "w \<in> cand_set (count_at t) thrd m \<and> 0 < occ data w"
      then obtain p s where ps: "w = p @ [s]" "length p = m" "set p \<subseteq> set NUCLEOTIDES"
        "frequent_in (count_at t) thrd p"
        unfolding cand_set_def by blast
      from a have lw: "length w = Suc m" using cand_set_length by blast
      with a have "w \<in> set (windows data (Suc m))" by (simp add: occ_pos_iff)
      then have "take m w \<in> set (windows data m)" by (rule take_windows)
      with ps have pw: "p \<in> set (windows data m)" by simp
      from qi ps have "idx_at t p \<noteq> None" unfolding queue_inv_def by blast
      moreover from qi have "queue_spec data m (idx_at t) = []" by (simp add: queue_inv_def)
      then have "\<forall>w \<in> set (windows data m). idx_at t w = None"
        by (rule queue_spec_empty_iff[THEN iffD1])
      with pw have "idx_at t p = None" by blast
      ultimately show False by simp
    qed
    then show "count_at t w = extend_counts data thrd m (count_at t) w"
      by (auto simp: extend_counts_def)
  qed
qed

lemma run_position_step:
  assumes inv: "trie_inv data m t" and qi: "queue_inv data thrd m t q"
  shows "\<exists>q' t'. run_position q t (Suc m) thrd = Inr (q', t')
           \<and> trie_inv data (Suc m) t' \<and> queue_inv data thrd (Suc m) t' q'
           \<and> count_at t' = extend_counts data thrd m (count_at t)
           \<and> (\<forall>w. length w \<le> m \<longrightarrow> idx_at t' w = idx_at t w)"
proof (cases "q = []")
  case True
  with run_position_step_empty[OF inv qi[unfolded True]] run_position_empty[of t "Suc m" thrd]
  show ?thesis by simp
next
  case False
  from run_position_step_nonempty(1-5)[OF inv qi False] show ?thesis by blast
qed

section \<open>The loop of the controller\<close>

declare apriori_extensions.simps [simp del]

lemma iteration_position:
  "meth = Position \<or> (meth = Hybrid \<and> \<not> use_apriori st) \<Longrightarrow>
   iteration data thrd meth len st = step_position thrd (len + 1) st"
  by (auto simp: iteration_def)

lemma iteration_apriori:
  "iteration data thrd Apriori len st = step_apriori data thrd (len + 1) st"
  by (simp add: iteration_def)

lemma iteration_hybrid_stay:
  "use_apriori st \<Longrightarrow> MAX_SIZE < number_of_freq_subseq (tree_of st) len thrd \<Longrightarrow>
   iteration data thrd Hybrid len st = step_apriori data thrd (len + 1) st"
  by (simp add: iteration_def)

lemma iteration_hybrid_switch:
  "use_apriori st \<Longrightarrow> number_of_freq_subseq (tree_of st) len thrd \<le> MAX_SIZE \<Longrightarrow>
   iteration data thrd Hybrid len st =
     (case prepare_position data thrd len st of
        Inl e \<Rightarrow> Inl e
      | Inr st1 \<Rightarrow> step_position thrd (len + 1) (st1\<lparr>use_apriori := False\<rparr>))"
  by (simp add: iteration_def split: sum.splits)

lemma step_position_Inr:
  "step_position thrd len st = Inr st' \<Longrightarrow>
   \<exists>q t. run_position (queue_of st) (tree_of st) len thrd = Inr (q, t)
         \<and> st' = st\<lparr>tree_of := t, queue_of := q\<rparr>"
  by (auto simp: step_position_def split: sum.splits)

lemma step_position_Inl:
  "step_position thrd len st = Inl (e, c) \<Longrightarrow> (e = AttributeError \<or> e = KeyError) \<and> c = counter_of st"
  by (auto simp: step_position_def dest: run_position_error split: sum.splits)

lemma prepare_position_Inr:
  "prepare_position data thrd len st = Inr st' \<Longrightarrow>
   \<exists>q. initialized_queue data (assign_pattern_index (tree_of st) len thrd) len thrd = Inr q
       \<and> st' = st\<lparr>tree_of := assign_pattern_index (tree_of st) len thrd, queue_of := q,
                   counter_of := increment (counter_of st)\<rparr>"
  by (auto simp: prepare_position_def Let_def split: sum.splits)

lemma prepare_position_Inl:
  "prepare_position data thrd len st = Inl (e, c) \<Longrightarrow> e = AttributeError \<and> c = counter_of st"
  by (auto simp: prepare_position_def Let_def dest: initialized_queue_error split: sum.splits)

lemma iteration_error:
  "iteration data thrd meth len st = Inl (e, c) \<Longrightarrow> e = AttributeError \<or> e = KeyError"
  by (cases meth)
     (auto simp: iteration_def step_apriori_def
           dest: step_position_Inl prepare_position_Inl split: if_splits sum.splits)

lemma loop_error:
  "loop data max_len thrd meth len st = Inl (e, c) \<Longrightarrow> e = AttributeError \<or> e = KeyError"
proof (induction data max_len thrd meth len st rule: loop.induct)
  case (1 data max_len thrd meth len st)
  show ?case
  proof (cases "len < max_len")
    case False
    with "1.prems" show ?thesis by (simp add: loop.simps)
  next
    case True
    show ?thesis
    proof (cases "iteration data thrd meth len st")
      case (Inl a)
      with True "1.prems" have "a = (e, c)" by (simp add: loop.simps)
      with Inl iteration_error show ?thesis by blast
    next
      case (Inr st1)
      with True "1.prems" have "loop data max_len thrd meth (len + 1) st1 = Inl (e, c)"
        by (simp add: loop.simps)
      from "1.IH"[OF True Inr this] show ?thesis .
    qed
  qed
qed

lemma loop_position:
  "meth = Position \<or> (meth = Hybrid \<and> \<not> use_apriori st) \<Longrightarrow>
   loop data max_len thrd meth len st = Inr st' \<Longrightarrow>
   length (queue_of st') \<le> length (queue_of st) \<and> counter_of st' = counter_of st
   \<and> use_apriori st' = use_apriori st"
proof (induction data max_len thrd meth len st rule: loop.induct)
  case (1 data max_len thrd meth len st)
  show ?case
  proof (cases "len < max_len")
    case False
    with "1.prems" show ?thesis by (simp add: loop.simps)
  next
    case True
    with "1.prems"(2) obtain st1 where it: "iteration data thrd meth len st = Inr st1"
      and lp: "loop data max_len thrd meth (len + 1) st1 = Inr st'"
      by (auto simp: loop.simps[of data max_len thrd meth len st] split: sum.splits)
    from it "1.prems"(1) have "step_position thrd (len + 1) st = Inr st1"
      by (simp add: iteration_position)
    from step_position_Inr[OF this] obtain q t where
      rp: "run_position (queue_of st) (tree_of st) (len + 1) thrd = Inr (q, t)"
      and st1: "st1 = st\<lparr>tree_of := t, queue_of := q\<rparr>" by blast
    have le: "length q \<le> length (queue_of st)"
      using rp run_position_shorter[OF rp] by (cases "queue_of st = []") (auto simp: run_position_empty)
    from "1.prems"(1) st1 have m: "meth = Position \<or> (meth = Hybrid \<and> \<not> use_apriori st1)"
      by simp
    from "1.IH"[OF True it m lp] st1 le show ?thesis by simp
  qed
qed

lemma loop_apriori:
  "\<exists>st'. loop data max_len thrd Apriori len st = Inr st'
      \<and> counter_of st' = (increment ^^ (max_len - len)) (counter_of st)"
proof (induction data max_len thrd "Apriori" len st rule: loop.induct)
  case (1 data max_len thrd len st)
  show ?case
  proof (cases "len < max_len")
    case False
    then show ?thesis by (simp add: loop.simps)
  next
    case True
    let ?st1 = "st\<lparr>tree_of := run_apriori data (tree_of st) (len + 1) thrd,
                    counter_of := increment (counter_of st)\<rparr>"
    have it: "iteration data thrd Apriori len st = Inr ?st1"
      by (simp add: iteration_apriori step_apriori_def)
    from "1.hyps"[OF True it] obtain st' where
      lp: "loop data max_len thrd Apriori (len + 1) ?st1 = Inr st'"
      and c: "counter_of st' = (increment ^^ (max_len - (len + 1))) (counter_of ?st1)" by blast
    from True have "max_len - len = Suc (max_len - (len + 1))" by simp
    with c have "counter_of st' = (increment ^^ (max_len - len)) (counter_of st)"
      by (simp add: funpow_swap1)
    with lp it True show ?thesis by (simp add: loop.simps[of data max_len thrd Apriori len st])
  qed
qed

lemma increment_Some: "increment (Some c) = Some (c + 1)"
  by (simp add: increment_def)

lemma increment_funpow: "(increment ^^ n) (Some c) = Some (c + n)"
  by (induction n) (simp_all add: increment_Some)

lemma loop_hybrid:
  "use_apriori st \<Longrightarrow> loop data max_len thrd Hybrid len st = Inr st' \<Longrightarrow>
   counter_of st = Some c \<Longrightarrow>
   counter_of st' =
     Some (c + apriori_extensions data thrd len max_len (tree_of st)
             + (if len + apriori_extensions data thrd len max_len (tree_of st) < max_len then 1 else 0))
   \<and> use_apriori st' = (\<not> len + apriori_extensions data thrd len max_len (tree_of st) < max_len)"
proof (induction data max_len thrd "Hybrid" len st arbitrary: c rule: loop.induct)
  case (1 data max_len thrd len st)
  show ?case
  proof (cases "len < max_len")
    case False
    with "1.prems" show ?thesis by (simp add: loop.simps apriori_extensions.simps)
  next
    case True
    with "1.prems"(2) obtain st1 where it: "iteration data thrd Hybrid len st = Inr st1"
      and lp: "loop data max_len thrd Hybrid (len + 1) st1 = Inr st'"
      by (auto simp: loop.simps[of data max_len thrd Hybrid len st] split: sum.splits)
    show ?thesis
    proof (cases "MAX_SIZE < number_of_freq_subseq (tree_of st) len thrd")
      case stay: True
      from it "1.prems"(1) stay
      have st1: "st1 = st\<lparr>tree_of := run_apriori data (tree_of st) (len + 1) thrd,
                          counter_of := increment (counter_of st)\<rparr>"
        by (simp add: iteration_hybrid_stay step_apriori_def)
      then have u: "use_apriori st1" and c1: "counter_of st1 = Some (c + 1)"
        using "1.prems"(1,3) by (simp_all add: increment_def)
      have k: "apriori_extensions data thrd len max_len (tree_of st)
                 = Suc (apriori_extensions data thrd (len + 1) max_len (tree_of st1))"
        using True stay st1 by (simp add: apriori_extensions.simps[of data thrd len])
      from "1.hyps"[OF True it u lp c1] show ?thesis unfolding k by simp
    next
      case switch: False
      then have le: "number_of_freq_subseq (tree_of st) len thrd \<le> MAX_SIZE" by simp
      from it "1.prems"(1) le obtain st0 where
        pp: "prepare_position data thrd len st = Inr st0"
        and sp: "step_position thrd (len + 1) (st0\<lparr>use_apriori := False\<rparr>) = Inr st1"
        by (auto simp: iteration_hybrid_switch split: sum.splits)
      from prepare_position_Inr[OF pp] "1.prems"(3) have c0: "counter_of st0 = Some (c + 1)"
        by (auto simp: increment_def)
      from step_position_Inr[OF sp] c0 have c1: "counter_of st1 = Some (c + 1)"
        and u1: "\<not> use_apriori st1" by auto
      from loop_position[OF _ lp] u1 c1 have "counter_of st' = Some (c + 1)" "\<not> use_apriori st'"
        by auto
      moreover have "apriori_extensions data thrd len max_len (tree_of st) = 0"
        using switch by (simp add: apriori_extensions.simps[of data thrd len])
      ultimately show ?thesis using True by simp
    qed
  qed
qed

lemma iteration_sorted:
  assumes "sorted_wrt rec_less (queue_of st)" and "iteration data thrd meth len st = Inr st'"
  shows "sorted_wrt rec_less (queue_of st')"
proof -
  have sp: "sorted_wrt rec_less (queue_of s1)"
    if "step_position thrd (len + 1) s0 = Inr s1" "sorted_wrt rec_less (queue_of s0)" for s0 s1
    using step_position_Inr[OF that(1)] that(2) run_position_sorted by auto
  show ?thesis
  proof (cases meth)
    case Apriori
    with assms show ?thesis by (auto simp: iteration_apriori step_apriori_def)
  next
    case Position
    with assms sp show ?thesis by (auto simp: iteration_position)
  next
    case Hybrid
    show ?thesis
    proof (cases "use_apriori st")
      case False
      with Hybrid assms sp show ?thesis by (auto simp: iteration_position)
    next
      case True
      show ?thesis
      proof (cases "MAX_SIZE < number_of_freq_subseq (tree_of st) len thrd")
        case stay: True
        with True Hybrid assms show ?thesis
          by (auto simp: iteration_hybrid_stay step_apriori_def)
      next
        case False
        with True Hybrid assms(2) obtain st0 where
          pp: "prepare_position data thrd len st = Inr st0"
          and s1: "step_position thrd (len + 1) (st0\<lparr>use_apriori := False\<rparr>) = Inr st'"
          by (auto simp: iteration_hybrid_switch split: sum.splits)
        from prepare_position_Inr[OF pp] initialized_queue_sorted
        have "sorted_wrt rec_less (queue_of (st0\<lparr>use_apriori := False\<rparr>))" by auto
        from sp[OF s1 this] show ?thesis .
      qed
    qed
  qed
qed

lemma loop_sorted:
  "sorted_wrt rec_less (queue_of st) \<Longrightarrow> loop data max_len thrd meth len st = Inr st' \<Longrightarrow>
   sorted_wrt rec_less (queue_of st')"
proof (induction data max_len thrd meth len st rule: loop.induct)
  case (1 data max_len thrd meth len st)
  show ?case
  proof (cases "len < max_len")
    case False
    with "1.prems" show ?thesis by (simp add: loop.simps)
  next
    case True
    with "1.prems"(2) obtain st1 where it: "iteration data thrd meth len st = Inr st1"
      and lp: "loop data max_len thrd meth (len + 1) st1 = Inr st'"
      by (auto simp: loop.simps[of data max_len thrd meth len st] split: sum.splits)
    from "1.IH"[OF True it iteration_sorted[OF "1.prems"(1) it] lp] show ?thesis .
  qed
qed

section \<open>The invariants along the controller\<close>

declare extend_to.simps [simp del]

lemma valid_windows:
  assumes "valid_corpus data" "w \<in> set (windows data m)"
  shows "set w \<subseteq> set NUCLEOTIDES"
proof -
  from assms(2) obtain sq pos where sq: "sq \<in> set data" "w = take m (drop pos sq)"
    by (auto simp: windows_def subsequences_def)
  have "set w \<subseteq> set sq" unfolding sq(2)
    by (meson set_take_subset set_drop_subset subset_trans)
  with assms(1) sq(1) show ?thesis unfolding valid_corpus_def by blast
qed

lemma prepare_position_inv:
  assumes inv: "trie_inv data m (tree_of st)" and noidx: "\<And>w. idx_at (tree_of st) w = None"
    and pp: "prepare_position data thrd m st = Inr st'"
  shows "trie_inv data m (tree_of st')"
    and "queue_inv data thrd m (tree_of st') (queue_of st')"
    and "count_at (tree_of st') = count_at (tree_of st)"
    and "use_apriori st' = use_apriori st"
    and "counter_of st' = increment (counter_of st)"
    and "tree_of st' = assign_pattern_index (tree_of st) m thrd"
proof -
  let ?t = "tree_of st"
  let ?t' = "assign_pattern_index ?t m thrd"
  from prepare_position_Inr[OF pp] obtain q where
    q: "initialized_queue data ?t' m thrd = Inr q"
    and st': "st' = st\<lparr>tree_of := ?t', queue_of := q, counter_of := increment (counter_of st)\<rparr>"
    by blast
  note P = prepare_obs[where thrd = thrd, OF inv noidx]
  from st' show t: "tree_of st' = ?t'" by simp
  from st' show "use_apriori st' = use_apriori st" by simp
  from st' show "counter_of st' = increment (counter_of st)" by simp
  from P(1) show "trie_inv data m (tree_of st')" unfolding t .
  from P(2) show "count_at (tree_of st') = count_at ?t" unfolding t .
  have qs: "q = queue_spec data m (idx_at ?t')"
  proof -
    have "initialized_queue data ?t' m thrd = Inr (queue_spec data m (idx_at ?t'))"
    proof (rule initialized_queue_spec)
      fix w assume "w \<in> set (windows data m)" "frequent_in (count_at ?t') thrd w"
      with q show "idx_at ?t' w \<noteq> None" by (rule initialized_queue_ok)
    next
      fix w assume w: "w \<in> set (windows data m)" and i: "idx_at ?t' w \<noteq> None"
      from w have "length w = m" by (rule windows_length)
      from P(6)[OF this i] show "frequent_in (count_at ?t') thrd w" unfolding P(2) by simp
    qed
    with q show ?thesis by simp
  qed
  show "queue_inv data thrd m (tree_of st') (queue_of st')"
    unfolding queue_inv_def t
  proof (intro conjI allI impI)
    fix w assume "length w = m" "set w \<subseteq> set NUCLEOTIDES" "frequent_in (count_at ?t') thrd w"
    then show "idx_at ?t' w \<noteq> None" unfolding P(2) by (rule P(5))
  next
    fix w v i assume "length w = m" "length v = m" "idx_at ?t' w = Some i" "idx_at ?t' v = Some i"
    then show "w = v" by (rule P(7))
  next
    from st' qs show "queue_of st' = queue_spec data m (idx_at ?t')" by simp
  qed
qed

lemma prepare_position_total:
  assumes inv: "trie_inv data m (tree_of st)" and noidx: "\<And>w. idx_at (tree_of st) w = None"
    and valid: "valid_corpus data"
  shows "\<exists>st'. prepare_position data thrd m st = Inr st'"
proof -
  let ?t = "tree_of st"
  let ?t' = "assign_pattern_index ?t m thrd"
  note P = prepare_obs[where thrd = thrd, OF inv noidx]
  have "initialized_queue data ?t' m thrd = Inr (queue_spec data m (idx_at ?t'))"
  proof (rule initialized_queue_spec)
    fix w assume w: "w \<in> set (windows data m)" and f: "frequent_in (count_at ?t') thrd w"
    from w have l: "length w = m" by (rule windows_length)
    from valid w have s: "set w \<subseteq> set NUCLEOTIDES" by (rule valid_windows)
    from f have "frequent_in (count_at ?t) thrd w" unfolding P(2) .
    with l s show "idx_at ?t' w \<noteq> None" by (rule P(5))
  next
    fix w assume w: "w \<in> set (windows data m)" and i: "idx_at ?t' w \<noteq> None"
    from w have "length w = m" by (rule windows_length)
    from P(6)[OF this i] show "frequent_in (count_at ?t') thrd w" unfolding P(2) by simp
  qed
  then show ?thesis by (simp add: prepare_position_def Let_def)
qed

lemma step_position_inv:
  assumes inv: "trie_inv data m (tree_of st)"
    and qi: "queue_inv data thrd m (tree_of st) (queue_of st)"
  shows "\<exists>st'. step_position thrd (Suc m) st = Inr st'
           \<and> trie_inv data (Suc m) (tree_of st')
           \<and> queue_inv data thrd (Suc m) (tree_of st') (queue_of st')
           \<and> count_at (tree_of st') = extend_counts data thrd m (count_at (tree_of st))
           \<and> use_apriori st' = use_apriori st \<and> counter_of st' = counter_of st"
proof -
  from run_position_step[OF inv qi] obtain q' t' where
    r: "run_position (queue_of st) (tree_of st) (Suc m) thrd = Inr (q', t')"
    and i: "trie_inv data (Suc m) t'" "queue_inv data thrd (Suc m) t' q'"
      "count_at t' = extend_counts data thrd m (count_at (tree_of st))"
    by blast
  have "step_position thrd (Suc m) st = Inr (st\<lparr>tree_of := t', queue_of := q'\<rparr>)"
    by (simp add: step_position_def r)
  with i show ?thesis by simp
qed

lemma step_apriori_inv:
  assumes inv: "trie_inv data m (tree_of st)"
  shows "\<exists>st'. step_apriori data thrd (Suc m) st = Inr st'
           \<and> trie_inv data (Suc m) (tree_of st')
           \<and> (\<forall>w. idx_at (tree_of st') w = idx_at (tree_of st) w)
           \<and> count_at (tree_of st') = extend_counts data thrd m (count_at (tree_of st))
           \<and> use_apriori st' = use_apriori st \<and> queue_of st' = queue_of st
           \<and> counter_of st' = increment (counter_of st)"
proof -
  have c: "count_at (run_apriori data (tree_of st) (Suc m) thrd)
           = extend_counts data thrd m (count_at (tree_of st))"
    by (rule ext) (rule run_apriori_obs(2)[OF inv])
  show ?thesis
    by (simp add: step_apriori_def run_apriori_inv[OF inv] run_apriori_obs(3)[OF inv] c)
qed

lemma iteration_inv:
  assumes mi: "mode_inv data thrd meth len st"
    and it: "iteration data thrd meth len st = Inr st'"
  shows "mode_inv data thrd meth (Suc len) st'
         \<and> count_at (tree_of st') = extend_counts data thrd len (count_at (tree_of st))"
proof -
  from mi have inv: "trie_inv data len (tree_of st)" by (simp add: mode_inv_def)
  consider (pos) "meth = Position \<or> (meth = Hybrid \<and> \<not> use_apriori st)"
    | (apr) "meth = Apriori"
    | (stay) "meth = Hybrid" "use_apriori st" "MAX_SIZE < number_of_freq_subseq (tree_of st) len thrd"
    | (switch) "meth = Hybrid" "use_apriori st" "number_of_freq_subseq (tree_of st) len thrd \<le> MAX_SIZE"
    by (cases meth; cases "use_apriori st";
        cases "MAX_SIZE < number_of_freq_subseq (tree_of st) len thrd") auto
  then show ?thesis
  proof cases
    case pos
    with mi have qi: "queue_inv data thrd len (tree_of st) (queue_of st)"
      by (simp add: mode_inv_def)
    from it pos have "step_position thrd (Suc len) st = Inr st'"
      by (simp add: iteration_position)
    with step_position_inv[OF inv qi] pos show ?thesis
      by (auto simp: mode_inv_def)
  next
    case apr
    with mi have ni: "\<forall>w. idx_at (tree_of st) w = None" by (simp add: mode_inv_def)
    from it apr have "step_apriori data thrd (Suc len) st = Inr st'"
      by (simp add: iteration_apriori)
    with step_apriori_inv[OF inv, of thrd] apr ni show ?thesis
      by (auto simp: mode_inv_def)
  next
    case stay
    with mi have ni: "\<forall>w. idx_at (tree_of st) w = None" by (simp add: mode_inv_def)
    from it stay have "step_apriori data thrd (Suc len) st = Inr st'"
      by (simp add: iteration_hybrid_stay)
    with step_apriori_inv[OF inv, of thrd] stay ni show ?thesis
      by (auto simp: mode_inv_def)
  next
    case switch
    with mi have ni: "\<And>w. idx_at (tree_of st) w = None" by (simp add: mode_inv_def)
    from it switch obtain st1 where p: "prepare_position data thrd len st = Inr st1"
      and s: "step_position thrd (Suc len) (st1\<lparr>use_apriori := False\<rparr>) = Inr st'"
      by (auto simp: iteration_hybrid_switch split: sum.splits)
    note P = prepare_position_inv[OF inv ni p]
    let ?st2 = "st1\<lparr>use_apriori := False\<rparr>"
    have inv2: "trie_inv data len (tree_of ?st2)" using P(1) by simp
    have qi2: "queue_inv data thrd len (tree_of ?st2) (queue_of ?st2)" using P(2) by simp
    from step_position_inv[OF inv2 qi2] s P(3) switch(1) show ?thesis
      by (auto simp: mode_inv_def)
  qed
qed

lemma iteration_total:
  assumes mi: "mode_inv data thrd meth len st"
    and valid: "meth = Hybrid \<Longrightarrow> valid_corpus data"
  shows "\<exists>st'. iteration data thrd meth len st = Inr st'"
proof -
  from mi have inv: "trie_inv data len (tree_of st)" by (simp add: mode_inv_def)
  consider (pos) "meth = Position \<or> (meth = Hybrid \<and> \<not> use_apriori st)"
    | (apr) "meth = Apriori"
    | (stay) "meth = Hybrid" "use_apriori st" "MAX_SIZE < number_of_freq_subseq (tree_of st) len thrd"
    | (switch) "meth = Hybrid" "use_apriori st" "number_of_freq_subseq (tree_of st) len thrd \<le> MAX_SIZE"
    by (cases meth; cases "use_apriori st";
        cases "MAX_SIZE < number_of_freq_subseq (tree_of st) len thrd") auto
  then show ?thesis
  proof cases
    case pos
    with mi have qi: "queue_inv data thrd len (tree_of st) (queue_of st)"
      by (simp add: mode_inv_def)
    from step_position_inv[OF inv qi] pos show ?thesis by (auto simp: iteration_position)
  next
    case apr
    then show ?thesis by (simp add: iteration_apriori step_apriori_def)
  next
    case stay
    then show ?thesis by (simp add: iteration_hybrid_stay step_apriori_def)
  next
    case switch
    with mi have ni: "\<And>w. idx_at (tree_of st) w = None" by (simp add: mode_inv_def)
    from prepare_position_total[OF inv ni valid[OF switch(1)]] obtain st1
      where p: "prepare_position data thrd len st = Inr st1" by blast
    note P = prepare_position_inv[OF inv ni p]
    let ?st2 = "st1\<lparr>use_apriori := False\<rparr>"
    have inv2: "trie_inv data len (tree_of ?st2)" using P(1) by simp
    have qi2: "queue_inv data thrd len (tree_of ?st2) (queue_of ?st2)" using P(2) by simp
    from step_position_inv[OF inv2 qi2] p switch show ?thesis
      by (auto simp: iteration_hybrid_switch)
  qed
qed

lemma loop_inv:
  "mode_inv data thrd meth len st \<Longrightarrow> loop data max_len thrd meth len st = Inr st' \<Longrightarrow>
   mode_inv data thrd meth (max len max_len) st'
   \<and> count_at (tree_of st') = extend_to data thrd len max_len (count_at (tree_of st))"
proof (induction data max_len thrd meth len st rule: loop.induct)
  case (1 data max_len thrd meth len st)
  show ?case
  proof (cases "len < max_len")
    case True
    with "1.prems"(2) obtain st1 where it: "iteration data thrd meth len st = Inr st1"
      and lp: "loop data max_len thrd meth (len + 1) st1 = Inr st'"
      by (subst (asm) loop.simps) (auto split: sum.splits)
    from iteration_inv[OF "1.prems"(1) it]
    have m1: "mode_inv data thrd meth (len + 1) st1"
      and c1: "count_at (tree_of st1) = extend_counts data thrd len (count_at (tree_of st))"
      by simp_all
    from "1.IH"[OF True it m1 lp] True c1 show ?thesis
      by (subst extend_to.simps) (simp add: max_def)
  next
    case False
    with "1.prems" show ?thesis
      by (subst extend_to.simps, subst (asm) loop.simps) (simp add: max_def)
  qed
qed

lemma loop_total:
  "mode_inv data thrd meth len st \<Longrightarrow> (meth = Hybrid \<Longrightarrow> valid_corpus data) \<Longrightarrow>
   \<exists>st'. loop data max_len thrd meth len st = Inr st'"
proof (induction data max_len thrd meth len st rule: loop.induct)
  case (1 data max_len thrd meth len st)
  show ?case
  proof (cases "len < max_len")
    case True
    from iteration_total[OF "1.prems"(1) "1.prems"(2)] obtain st1
      where it: "iteration data thrd meth len st = Inr st1" by blast
    from iteration_inv[OF "1.prems"(1) it]
    have m1: "mode_inv data thrd meth (len + 1) st1" by simp
    from "1.IH"[OF True it m1 "1.prems"(2)] True it show ?thesis
      by (subst loop.simps) simp
  next
    case False
    then show ?thesis by (subst loop.simps) simp
  qed
qed

lemma results_set:
  assumes "spelled t" "seq t = []"
  shows "set (all_patterns_at_least t thrd)
         = {(w, c). set w \<subseteq> set NUCLEOTIDES \<and> count_at t w = Some c \<and> thrd \<le> c}"
proof (rule set_eqI)
  fix x :: "string \<times> int"
  obtain w c where x: "x = (w, c)" by (cases x)
  have "(w, c) \<in> set (all_patterns_at_least t thrd)
        \<longleftrightarrow> (\<exists>n \<in> set (all_nodes t). count n = Some c \<and> thrd \<le> c \<and> seq n = w)"
    unfolding all_patterns_at_least_count
    by (simp split: option.splits if_splits) metis
  also have "\<dots> \<longleftrightarrow> (\<exists>n v. set v \<subseteq> set NUCLEOTIDES \<and> pattern t v = Inr n
                          \<and> count n = Some c \<and> thrd \<le> c \<and> seq n = w)"
    unfolding set_all_nodes by blast
  also have "\<dots> \<longleftrightarrow> (\<exists>n. set w \<subseteq> set NUCLEOTIDES \<and> pattern t w = Inr n
                          \<and> count n = Some c \<and> thrd \<le> c)"
    using spelled_node[OF assms] by blast
  also have "\<dots> \<longleftrightarrow> set w \<subseteq> set NUCLEOTIDES \<and> count_at t w = Some c \<and> thrd \<le> c"
    by (auto simp: count_at_def split: sum.splits)
  finally show "x \<in> set (all_patterns_at_least t thrd)
        \<longleftrightarrow> x \<in> {(w, c). set w \<subseteq> set NUCLEOTIDES \<and> count_at t w = Some c \<and> thrd \<le> c}"
    unfolding x by simp
qed

section \<open>The result of \<open>frequent_patterns\<close>\<close>

lemma count_list_concat:
  "count_list (concat xss) x = sum_list (map (\<lambda>xs. count_list xs x) xss)"
  by (induction xss) simp_all

lemma count_list_map_upt:
  "count_list (map f [0..<k]) w = card {off. off < k \<and> f off = w}"
proof (induction k)
  case 0
  show ?case by simp
next
  case (Suc k)
  have fin: "finite {off. off < k \<and> f off = w}" by simp
  have e: "{off. off < Suc k \<and> f off = w}
           = (if f k = w then insert k {off. off < k \<and> f off = w} else {off. off < k \<and> f off = w})"
    by (auto simp: less_Suc_eq)
  show ?case unfolding e using Suc fin by simp
qed

lemma count_list_subsequences:
  "count_list (subsequences sq (length w)) w
     = card {off. off + length w \<le> length sq \<and> take (length w) (drop off sq) = w}"
proof -
  have "{off. off < length sq + 1 - length w \<and> take (length w) (drop off sq) = w}
        = {off. off + length w \<le> length sq \<and> take (length w) (drop off sq) = w}"
    by auto
  then show ?thesis unfolding subsequences_def count_list_map_upt by simp
qed

lemma occ_card: "occ data w = card (positions data w)"
proof -
  let ?A = "\<lambda>sq. {off. off + length w \<le> length sq \<and> take (length w) (drop off sq) = w}"
  have fin: "finite (?A sq)" for sq
    by (rule finite_subset[of _ "{..length sq}"]) auto
  have "occ data w = sum_list (map (\<lambda>sq. card (?A sq)) data)"
    unfolding occ_def windows_def count_list_concat
    by (simp add: comp_def count_list_subsequences)
  also have "\<dots> = (\<Sum>i = 0..<length data. card (?A (data ! i)))"
    by (simp add: sum_list_sum_nth)
  also have "\<dots> = card (SIGMA i:{0..<length data}. ?A (data ! i))"
    using fin by (simp add: card_SigmaI)
  also have "(SIGMA i:{0..<length data}. ?A (data ! i)) = positions data w"
    unfolding positions_def by auto
  finally show ?thesis .
qed

lemma initial_state_inv:
  "trie_inv data min_len (initialized_tree data min_len)"
  "idx_at (initialized_tree data min_len) w = None"
  "count_at (initialized_tree data min_len) = level_counts data min_len"
  by (rule initialized_tree_inv, rule initialized_tree_obs(3))
     (rule ext, simp add: initialized_tree_obs(2) level_counts_def)

lemma frequent_patterns_final:
  assumes "frequent_patterns data min_len max_len thrd counter meth = Inr (r, c)"
  shows "\<exists>st :: state. r = all_patterns_at_least (tree_of st) thrd \<and> c = counter_of st
              \<and> trie_inv data (max min_len max_len) (tree_of st)
              \<and> count_at (tree_of st) = mined data min_len max_len thrd"
proof -
  let ?st0 = "\<lparr>tree_of = initialized_tree data min_len, queue_of = [], use_apriori = True,
               counter_of = increment counter\<rparr>"
  have inv0: "trie_inv data min_len (tree_of ?st0)" by (simp add: initial_state_inv(1))
  have ni0: "\<And>w. idx_at (tree_of ?st0) w = None" by (simp add: initial_state_inv(2))
  have c0: "count_at (tree_of ?st0) = level_counts data min_len" by (simp add: initial_state_inv(3))
  have "\<exists>st1 st2. mode_inv data thrd meth min_len st1
            \<and> count_at (tree_of st1) = level_counts data min_len
            \<and> loop data max_len thrd meth min_len st1 = Inr st2
            \<and> r = all_patterns_at_least (tree_of st2) thrd \<and> c = counter_of st2"
  proof (cases "meth = Position")
    case True
    with assms obtain st1 st2 where p: "prepare_position data thrd min_len ?st0 = Inr st1"
      and l: "loop data max_len thrd meth min_len st1 = Inr st2"
      and r: "r = all_patterns_at_least (tree_of st2) thrd" "c = counter_of st2"
      by (auto simp: frequent_patterns_def Let_def split: if_splits sum.splits)
    note P = prepare_position_inv[OF inv0 ni0 p]
    from P(1,2) True have "mode_inv data thrd meth min_len st1" by (simp add: mode_inv_def)
    moreover from P(3) c0 have "count_at (tree_of st1) = level_counts data min_len" by simp
    ultimately show ?thesis using l r by blast
  next
    case False
    with assms obtain st2 where l: "loop data max_len thrd meth min_len ?st0 = Inr st2"
      and r: "r = all_patterns_at_least (tree_of st2) thrd" "c = counter_of st2"
      by (auto simp: frequent_patterns_def Let_def split: if_splits sum.splits)
    from False inv0 ni0 have "mode_inv data thrd meth min_len ?st0" by (simp add: mode_inv_def)
    with c0 l r show ?thesis by blast
  qed
  then obtain st1 st2 where m: "mode_inv data thrd meth min_len st1"
    and c1: "count_at (tree_of st1) = level_counts data min_len"
    and l: "loop data max_len thrd meth min_len st1 = Inr st2"
    and r: "r = all_patterns_at_least (tree_of st2) thrd" "c = counter_of st2"
    by blast
  from loop_inv[OF m l] c1 have "trie_inv data (max min_len max_len) (tree_of st2)"
    and "count_at (tree_of st2) = mined data min_len max_len thrd"
    by (simp_all add: mode_inv_def mined_def)
  with r show ?thesis by (intro exI[of _ st2]) simp
qed

lemma frequent_patterns_set:
  assumes "frequent_patterns data min_len max_len thrd counter meth = Inr (r, c)"
  shows "set r = {(w, k). set w \<subseteq> set NUCLEOTIDES \<and> mined data min_len max_len thrd w = Some k
                          \<and> thrd \<le> k}"
    and "(w, k) \<in> set r \<Longrightarrow> k = int (occ data w) \<and> 0 < occ data w"
proof -
  from frequent_patterns_final[OF assms] obtain st :: state where
    st: "r = all_patterns_at_least (tree_of st) thrd"
    "trie_inv data (max min_len max_len) (tree_of st)"
    "count_at (tree_of st) = mined data min_len max_len thrd"
    by blast
  from st(2) have sp: "spelled (tree_of st)" "seq (tree_of st) = []" by (simp_all add: trie_inv_def)
  show s: "set r = {(w, k). set w \<subseteq> set NUCLEOTIDES \<and> mined data min_len max_len thrd w = Some k
                          \<and> thrd \<le> k}"
    unfolding st(1) results_set[OF sp] st(3) ..
  assume "(w, k) \<in> set r"
  then have "count_at (tree_of st) w = Some k" unfolding s st(3) by simp
  with st(2) show "k = int (occ data w) \<and> 0 < occ data w" unfolding trie_inv_def by blast
qed

lemma frequent_patterns_apriori_total:
  "\<exists>r c. frequent_patterns data min_len max_len thrd counter Apriori = Inr (r, c)"
proof -
  let ?st0 = "\<lparr>tree_of = initialized_tree data min_len, queue_of = [], use_apriori = True,
               counter_of = increment counter\<rparr>"
  from loop_apriori[of data max_len thrd min_len ?st0] obtain st'
    where "loop data max_len thrd Apriori min_len ?st0 = Inr st'" by blast
  then show ?thesis by (simp add: frequent_patterns_def Let_def)
qed

lemma frequent_patterns_hybrid_total:
  assumes "valid_corpus data"
  shows "\<exists>r c. frequent_patterns data min_len max_len thrd counter Hybrid = Inr (r, c)"
proof -
  let ?st0 = "\<lparr>tree_of = initialized_tree data min_len, queue_of = [], use_apriori = True,
               counter_of = increment counter\<rparr>"
  have "mode_inv data thrd Hybrid min_len ?st0"
    by (simp add: mode_inv_def initial_state_inv)
  from loop_total[OF this assms, of max_len] show ?thesis
    by (auto simp: frequent_patterns_def Let_def)
qed

lemma frequent_patterns_position_total:
  assumes "valid_corpus data"
    and "number_of_freq_subseq (initialized_tree data min_len) min_len thrd \<le> MAX_SIZE"
  shows "\<exists>r c. frequent_patterns data min_len max_len thrd counter Position = Inr (r, c)"
proof -
  let ?st0 = "\<lparr>tree_of = initialized_tree data min_len, queue_of = [], use_apriori = True,
               counter_of = increment counter\<rparr>"
  have inv0: "trie_inv data min_len (tree_of ?st0)" by (simp add: initial_state_inv(1))
  have ni0: "\<And>w. idx_at (tree_of ?st0) w = None" by (simp add: initial_state_inv(2))
  from prepare_position_total[OF inv0 ni0 assms(1)] obtain st1
    where p: "prepare_position data thrd min_len ?st0 = Inr st1" by blast
  note P = prepare_position_inv[OF inv0 ni0 p]
  from P(1,2) have "mode_inv data thrd Position min_len st1" by (simp add: mode_inv_def)
  from loop_total[OF this, of max_len] obtain st2
    where "loop data max_len thrd Position min_len st1 = Inr st2" by auto
  with p assms(2) show ?thesis
    by (simp add: frequent_patterns_def Let_def)
qed

section \<open>A corpus beyond the queue budget\<close>

text \<open>
  One sequence of \<open>n\<close> equal nucleotides has \<open>n\<close> windows of length \<open>1\<close>, all the same
  pattern; with \<open>n = 10^8 + 1\<close> the number of frequent occurrences exceeds \<open>MAX_SIZE\<close>.
\<close>

lemma subsequences_replicate: "subsequences (replicate n c) 1 = replicate n [c]"
  by (auto simp: subsequences_def list_eq_iff_nth_eq)

lemma add_count_again:
  "add (add (Tree [] None None (\<lambda>_. None)) [c] (Some k) None) [c] (Some 1) None
     = add (Tree [] None None (\<lambda>_. None)) [c] (Some (k + 1)) None"
  by (simp add: set_child_def set_count_def)

lemma fold_add_replicate:
  "fold (\<lambda>subseq tree. add tree subseq (Some 1) None) (replicate n [c])
        (add (Tree [] None None (\<lambda>_. None)) [c] (Some k) None)
     = add (Tree [] None None (\<lambda>_. None)) [c] (Some (k + int n)) None"
proof (induction n arbitrary: k)
  case 0
  then show ?case by simp
next
  case (Suc n)
  have "fold (\<lambda>subseq tree. add tree subseq (Some 1) None) (replicate (Suc n) [c])
          (add (Tree [] None None (\<lambda>_. None)) [c] (Some k) None)
        = fold (\<lambda>subseq tree. add tree subseq (Some 1) None) (replicate n [c])
          (add (Tree [] None None (\<lambda>_. None)) [c] (Some (k + 1)) None)"
    by (simp only: replicate_Suc fold_simps add_count_again)
  also have "\<dots> = add (Tree [] None None (\<lambda>_. None)) [c] (Some (k + 1 + int n)) None"
    by (rule Suc.IH)
  also have "k + 1 + int n = k + int (Suc n)"
    by simp
  finally show ?case .
qed

lemma initialized_tree_replicate:
  "initialized_tree [replicate (Suc n) c] 1
     = add (Tree [] None None (\<lambda>_. None)) [c] (Some (1 + int n)) None"
proof -
  have "initialized_tree [replicate (Suc n) c] 1
        = fold (\<lambda>subseq tree. add tree subseq (Some 1) None) (subsequences (replicate (Suc n) c) 1)
            (Tree [] None None (\<lambda>_. None))"
    by (simp add: initialized_tree_def)
  also have "\<dots> = fold (\<lambda>subseq tree. add tree subseq (Some 1) None) (replicate n [c])
            (add (Tree [] None None (\<lambda>_. None)) [c] (Some 1) None)"
    unfolding subsequences_replicate by (simp only: fold_simps replicate_Suc id_apply comp_apply)
  finally show ?thesis by (simp only: fold_add_replicate)
qed

lemma number_of_freq_subseq_single:
  "number_of_freq_subseq (add (Tree [] None None (\<lambda>_. None)) ''A'' (Some k) None) 1 thrd
     = (if thrd \<le> k then k else 0)"
  by (simp add: number_of_freq_subseq_def all_children_def NUCLEOTIDES_def set_child_def
        set_count_def has_count_at_least_def)

lemma all_patterns_single:
  "all_patterns_at_least (add (Tree [] None None (\<lambda>_. None)) ''A'' (Some k) None) thrd
     = (if thrd \<le> k then [(''A'', k)] else [])"
  by (simp add: all_patterns_at_least_def NUCLEOTIDES_def set_child_def
        set_count_def has_count_at_least_def)

lemma big_corpus_tree:
  "initialized_tree [replicate 100000001 (CHR ''A'')] 1
     = add (Tree [] None None (\<lambda>_. None)) ''A'' (Some 100000001) None"
proof -
  have "(100000001 :: nat) = Suc 100000000" by simp
  then show ?thesis by (simp only: initialized_tree_replicate) simp
qed

lemma big_corpus_exceeds:
  "MAX_SIZE < number_of_freq_subseq (initialized_tree [replicate 100000001 (CHR ''A'')] 1) 1 1"
  by (simp only: big_corpus_tree number_of_freq_subseq_single)
     (simp add: MAX_SIZE_def MEM_QUEUE_def MEM_PER_ELEM_def)

lemma frequent_patterns_exceed:
  "(\<exists>c. frequent_patterns data min_len max_len thrd counter meth = Inl (ExceedAllocatedMemory, c))
   \<longleftrightarrow> meth = Position
        \<and> MAX_SIZE < number_of_freq_subseq (initialized_tree data min_len) min_len thrd"
proof
  assume "\<exists>c. frequent_patterns data min_len max_len thrd counter meth = Inl (ExceedAllocatedMemory, c)"
  then obtain c where
    c: "frequent_patterns data min_len max_len thrd counter meth = Inl (ExceedAllocatedMemory, c)" ..
  show "meth = Position
        \<and> MAX_SIZE < number_of_freq_subseq (initialized_tree data min_len) min_len thrd"
  proof (rule ccontr)
    assume n: "\<not> ?thesis"
    from c n show False
      unfolding frequent_patterns_def Let_def
      by (auto split: if_splits sum.splits dest: loop_error prepare_position_Inl)
  qed
next
  assume "meth = Position
        \<and> MAX_SIZE < number_of_freq_subseq (initialized_tree data min_len) min_len thrd"
  then show "\<exists>c. frequent_patterns data min_len max_len thrd counter meth = Inl (ExceedAllocatedMemory, c)"
    by (simp add: frequent_patterns_def)
qed

lemma frequent_patterns_position_raise:
  "MAX_SIZE < number_of_freq_subseq (initialized_tree data min_len) min_len thrd \<Longrightarrow>
   frequent_patterns data min_len max_len thrd counter Position
     = Inl (ExceedAllocatedMemory, increment counter)"
  by (simp add: frequent_patterns_def)

section \<open>Concrete runs\<close>

lemmas eval_defs =
  example_data_def example_tree_def example_queue_def
  NUCLEOTIDES_def MAX_SIZE_def MEM_QUEUE_def MEM_PER_ELEM_def
  set_count_def set_idx_def set_child_def has_child_def child_def increment_count_def
  has_count_at_least_def all_children_def all_patterns_at_least_def increment_def
  subsequences_def initialized_tree_def candidates_def run_apriori_def assign_pattern_index_def
  initialized_queue_def candidate_mappings_def run_position_def number_of_freq_subseq_def
  prepare_position_def step_apriori_def step_position_def iteration_def frequent_patterns_def
  enumerate_eq_zip upt_rec Let_def loop.simps

lemma example_initialized_queue:
  "initialized_queue example_data example_tree 1 2 = Inr example_queue"
  by (simp add: eval_defs)

lemma example_run_position:
  "\<exists>t'. run_position example_queue example_tree 2 2 = Inr ([(0, 0, 1), (0, 1, 2), (0, 2, 1)], t')"
  by (simp add: eval_defs)

lemma example_candidate_mappings:
  "candidate_mappings example_tree 2 2
     = Inr [(''AA'', (0, 0), 0), (''AC'', (0, 1), 1), (''CA'', (1, 0), 2), (''CC'', (1, 1), 3)]"
  by (simp add: eval_defs)

lemma example_loop:
  "\<exists>t'. loop example_data 2 2 Position 1
      \<lparr>tree_of = example_tree, queue_of = example_queue, use_apriori = True, counter_of = Some 2\<rparr>
    = Inr \<lparr>tree_of = t', queue_of = [(0, 0, 1), (0, 1, 2), (0, 2, 1)], use_apriori = True,
          counter_of = Some 2\<rparr>"
  by (simp add: eval_defs)

section \<open>Claims about the trie\<close>

text \<open>
  Claim C7. \<open>increment_count\<close> (the specification's \<open>increment_if_present\<close>): when the path
  exists, the node at the path gets the count update (\<open>count + delta\<close>, or \<open>delta\<close> when the
  node had no count) and nothing else that can be observed of the trie changes; when the
  path does not exist, which is when \<open>pattern\<close> raises \<open>PatternNotFound\<close>, the trie is
  left as it is. In both cases the result is the trie: the exception is absorbed and the
  caller never sees it.
\<close>

theorem increment_count_if_present:
  "(\<forall>node. pattern t sq = Inr node \<longrightarrow>
      pattern (increment_count t sq c) sq =
        Inr (set_count node (case count node of Some k \<Rightarrow> k + c | None \<Rightarrow> c)) \<and>
      (\<forall>v. v \<noteq> sq \<longrightarrow>
         present (increment_count t sq c) v = present t v \<and>
         count_at (increment_count t sq c) v = count_at t v \<and>
         idx_at (increment_count t sq c) v = idx_at t v \<and>
         seq_at (increment_count t sq c) v = seq_at t v)) \<and>
   (pattern t sq = Inl PatternNotFound \<longrightarrow> increment_count t sq c = t)"
  using increment_count_present[where t = t and sq = sq and c = c]
    increment_count_absent[where t = t and sq = sq and c = c]
  by blast

text \<open>The claim at a trie that stores \<open>AC\<close>: the present path \<open>AC\<close> and the absent path \<open>AG\<close>.\<close>

theorem increment_count_if_present_witness:
  "pattern (add (Tree [] None None (\<lambda>_. None)) ''AC'' (Some 1) None) ''AC''
     = Inr (Tree ''AC'' (Some 1) None (\<lambda>_. None)) \<and>
   pattern (increment_count (add (Tree [] None None (\<lambda>_. None)) ''AC'' (Some 1) None) ''AC'' 2) ''AC''
     = Inr (Tree ''AC'' (Some 3) None (\<lambda>_. None)) \<and>
   pattern (add (Tree [] None None (\<lambda>_. None)) ''AC'' (Some 1) None) ''AG'' = Inl PatternNotFound \<and>
   increment_count (add (Tree [] None None (\<lambda>_. None)) ''AC'' (Some 1) None) ''AG'' 2
     = add (Tree [] None None (\<lambda>_. None)) ''AC'' (Some 1) None"
proof -
  let ?t = "add (Tree [] None None (\<lambda>_. None)) ''AC'' (Some 1) None"
  have p: "pattern ?t ''AC'' = Inr (Tree ''AC'' (Some 1) None (\<lambda>_. None))"
    by (simp add: set_count_def)
  have a: "pattern ?t ''AG'' = Inl PatternNotFound"
    by simp
  from increment_count_if_present[of ?t "''AC''" 2] p
  have "pattern (increment_count ?t ''AC'' 2) ''AC'' = Inr (Tree ''AC'' (Some 3) None (\<lambda>_. None))"
    by (simp add: set_count_def)
  moreover from increment_count_if_present[of ?t "''AG''" 2] a
  have "increment_count ?t ''AG'' 2 = ?t"
    by blast
  ultimately show ?thesis using p a by blast
qed

text \<open>
  Claim C9. A node without a \<open>count\<close> attribute is not frequent for any threshold, \<open>0\<close>
  included: \<open>has_count_at_least\<close> is false on it, and \<open>all_patterns_at_least\<close> yields
  pairs only for nodes that have a count (a node without one contributes nothing). On a
  node with a count, \<open>increment_count\<close> with a negative \<open>delta\<close> lowers the count by that
  amount.
\<close>

theorem no_count_not_frequent:
  "(count node = None \<longrightarrow> \<not> has_count_at_least node thrd) \<and>
   all_patterns_at_least t thrd =
     concat (map (\<lambda>node. case count node of None \<Rightarrow> []
                         | Some c \<Rightarrow> if thrd \<le> c then [(seq node, c)] else [])
                 (all_nodes t)) \<and>
   (\<forall>p \<in> set (all_patterns_at_least t thrd).
      \<exists>n \<in> set (all_nodes t). seq n = fst p \<and> count n = Some (snd p) \<and> thrd \<le> snd p) \<and>
   (\<forall>n k. pattern t sq = Inr n \<longrightarrow> count n = Some k \<longrightarrow>
      count_at (increment_count t sq d) sq = Some (k + d) \<and>
      (d < 0 \<longrightarrow> count_at (increment_count t sq d) sq = Some (k - \<bar>d\<bar>)))"
proof -
  have a: "count node = None \<longrightarrow> \<not> has_count_at_least node thrd"
    by (simp add: has_count_at_least_def)
  have c: "\<forall>p \<in> set (all_patterns_at_least t thrd).
      \<exists>n \<in> set (all_nodes t). seq n = fst p \<and> count n = Some (snd p) \<and> thrd \<le> snd p"
    by (auto simp: all_patterns_at_least_count split: option.splits if_splits)
  have d: "\<forall>n k. pattern t sq = Inr n \<longrightarrow> count n = Some k \<longrightarrow>
      count_at (increment_count t sq d) sq = Some (k + d) \<and>
      (d < 0 \<longrightarrow> count_at (increment_count t sq d) sq = Some (k - \<bar>d\<bar>))"
    by (simp add: count_at_increment_count)
  from a c d all_patterns_at_least_count[of t thrd] show ?thesis by blast
qed

text \<open>
  The claim at threshold \<open>0\<close>: the root of a trie that stores \<open>A\<close> once has no count and is
  not yielded, and \<open>delta = -3\<close> takes the count of \<open>A\<close> from \<open>1\<close> to \<open>-2\<close>.
\<close>

theorem no_count_not_frequent_witness:
  "count (Tree [] None None (\<lambda>_. None)) = None \<and>
   \<not> has_count_at_least (Tree [] None None (\<lambda>_. None)) 0 \<and>
   all_patterns_at_least (add (Tree [] None None (\<lambda>_. None)) ''A'' (Some 1) None) 0 = [(''A'', 1)] \<and>
   pattern (add (Tree [] None None (\<lambda>_. None)) ''A'' (Some 1) None) ''A''
     = Inr (Tree ''A'' (Some 1) None (\<lambda>_. None)) \<and>
   count_at (increment_count (add (Tree [] None None (\<lambda>_. None)) ''A'' (Some 1) None) ''A'' (- 3)) ''A''
     = Some (- 2)"
proof -
  let ?r = "Tree [] None None (\<lambda>_. None)"
  let ?t = "add ?r ''A'' (Some 1) None"
  let ?n = "Tree ''A'' (Some 1) None (\<lambda>_. None)"
  have p: "pattern ?t ''A'' = Inr ?n"
    by (simp add: set_count_def)
  have n: "count ?n = Some 1" by simp
  from no_count_not_frequent[of ?r 0 ?t "''A''" "- 3"] p n
  have "\<not> has_count_at_least ?r 0"
    and "all_patterns_at_least ?t 0 = [(''A'', 1)]"
    and "count_at (increment_count ?t ''A'' (- 3)) ''A'' = Some (- 2)"
    by (simp_all add: set_child_def set_count_def NUCLEOTIDES_def)
  with p show ?thesis by simp
qed

section \<open>Claims about the position engine and the controller\<close>

text \<open>
  Claim C5. The queue that \<open>initialized_queue\<close> builds is in strict lexicographic order by
  \<open>(sequence ID, position)\<close>. Every call to \<open>run_position\<close> on a queue in that order
  returns a queue in that order, and the pattern index of each of its records is one of the
  indices \<open>cand_idx\<close> that the call assigned to a candidate of the new length (an item of
  \<open>candidate_mappings\<close>). So the order holds after every round of the controller's loop.
\<close>

theorem queue_invariant:
  "(\<forall>q. initialized_queue data tree len thrd = Inr q \<longrightarrow> sorted_wrt rec_less q) \<and>
   (\<forall>q' t'. sorted_wrt rec_less queue \<longrightarrow> run_position queue tree len thrd = Inr (q', t') \<longrightarrow>
      sorted_wrt rec_less q' \<and>
      (\<forall>r \<in> set q'. \<exists>cms sq indices. candidate_mappings tree len thrd = Inr cms
                                      \<and> (sq, indices, snd (snd r)) \<in> set cms)) \<and>
   (\<forall>st'. sorted_wrt rec_less (queue_of st) \<longrightarrow>
      loop data max_len thrd meth len st = Inr st' \<longrightarrow> sorted_wrt rec_less (queue_of st'))"
proof (intro conjI allI impI ballI)
  fix q
  assume "initialized_queue data tree len thrd = Inr q"
  then show "sorted_wrt rec_less q" by (rule initialized_queue_sorted)
next
  fix q' t'
  assume "sorted_wrt rec_less queue" "run_position queue tree len thrd = Inr (q', t')"
  then show "sorted_wrt rec_less q'" by (rule run_position_sorted[rotated])
next
  fix q' t' r
  assume "run_position queue tree len thrd = Inr (q', t')" "r \<in> set q'"
  then show "\<exists>cms sq indices. candidate_mappings tree len thrd = Inr cms
                \<and> (sq, indices, snd (snd r)) \<in> set cms"
    by (rule run_position_idx)
next
  fix st'
  assume "sorted_wrt rec_less (queue_of st)" "loop data max_len thrd meth len st = Inr st'"
  then show "sorted_wrt rec_less (queue_of st')" by (rule loop_sorted)
qed

text \<open>
  The claim on the corpus \<open>ACAC\<close>: the queue of the four windows of length \<open>1\<close> and the
  queue of the three windows of length \<open>2\<close> that \<open>run_position\<close> makes of it.
\<close>

theorem queue_invariant_witness:
  "initialized_queue example_data example_tree 1 2 = Inr example_queue \<and>
   sorted_wrt rec_less example_queue \<and>
   (\<exists>t'. run_position example_queue example_tree 2 2 = Inr ([(0, 0, 1), (0, 1, 2), (0, 2, 1)], t')) \<and>
   sorted_wrt rec_less [(0, 0, 1), (0, 1, 2), (0, 2, 1)] \<and>
   (\<exists>cms sq indices. candidate_mappings example_tree 2 2 = Inr cms \<and> (sq, indices, 2) \<in> set cms)"
proof -
  note q = queue_invariant[where data = example_data and tree = example_tree and len = 1
      and thrd = 2]
  from example_run_position obtain t' where
    rp: "run_position example_queue example_tree 2 2 = Inr ([(0, 0, 1), (0, 1, 2), (0, 2, 1)], t')" ..
  from q example_initialized_queue have s: "sorted_wrt rec_less example_queue"
    by blast
  from queue_invariant[where tree = example_tree and len = 2 and thrd = 2
      and queue = example_queue] s rp
  have "sorted_wrt rec_less [(0, 0, 1), (0, 1, 2), (0, 2, 1)]"
    and "\<forall>r \<in> set [(0 :: nat, 0 :: nat, 1 :: nat), (0, 1, 2), (0, 2, 1)].
           \<exists>cms sq indices. candidate_mappings example_tree 2 2 = Inr cms
              \<and> (sq, indices, snd (snd r)) \<in> set cms"
    by blast+
  with example_initialized_queue s rp show ?thesis by auto
qed

text \<open>
  Claim C6. \<open>frequent_patterns\<close> raises \<open>ExceedAllocatedMemory\<close> exactly when the meth is
  \<open>position\<close> and the number of frequent occurrences of length \<open>L_min\<close> (what
  \<open>number_of_freq_subseq\<close> sums on the initial trie) exceeds \<open>MAX_SIZE\<close>. Under \<open>hybrid\<close> a
  round of the loop that meets the same condition while in A-priori mode neither raises nor
  switches: it is the A-priori extension, and \<open>use_apriori\<close> stays set.
\<close>

theorem exceed_allocated_memory_iff:
  "((\<exists>c. frequent_patterns data min_len max_len thrd counter meth = Inl (ExceedAllocatedMemory, c))
     \<longleftrightarrow> meth = Position
          \<and> MAX_SIZE < number_of_freq_subseq (initialized_tree data min_len) min_len thrd) \<and>
   (use_apriori st \<and> MAX_SIZE < number_of_freq_subseq (tree_of st) len thrd \<longrightarrow>
      iteration data thrd Hybrid len st
        = Inr (st\<lparr>tree_of := run_apriori data (tree_of st) (len + 1) thrd,
                  counter_of := increment (counter_of st)\<rparr>)
      \<and> use_apriori (st\<lparr>tree_of := run_apriori data (tree_of st) (len + 1) thrd,
                         counter_of := increment (counter_of st)\<rparr>))"
  using frequent_patterns_exceed[of data min_len max_len thrd counter meth]
    iteration_hybrid_stay[of st len thrd data]
  by (simp add: step_apriori_def)

text \<open>
  The claim on one sequence of \<open>10^8 + 1\<close> nucleotides \<open>A\<close>, lengths \<open>1\<close> to \<open>2\<close> and
  threshold \<open>1\<close>: \<open>position\<close> raises, and the first round of \<open>hybrid\<close> is an A-priori
  extension.
\<close>

theorem exceed_allocated_memory_iff_witness:
  "MAX_SIZE < number_of_freq_subseq (initialized_tree [replicate 100000001 (CHR ''A'')] 1) 1 1 \<and>
   (\<exists>c. frequent_patterns [replicate 100000001 (CHR ''A'')] 1 2 1 (Some 0) Position
          = Inl (ExceedAllocatedMemory, c)) \<and>
   iteration [replicate 100000001 (CHR ''A'')] 1 Hybrid 1
      \<lparr>tree_of = initialized_tree [replicate 100000001 (CHR ''A'')] 1, queue_of = [],
       use_apriori = True, counter_of = Some 1\<rparr>
     = Inr \<lparr>tree_of = run_apriori [replicate 100000001 (CHR ''A'')]
                        (initialized_tree [replicate 100000001 (CHR ''A'')] 1) 2 1,
            queue_of = [], use_apriori = True, counter_of = Some 2\<rparr>"
proof -
  let ?d = "[replicate 100000001 (CHR ''A'')]"
  let ?st = "\<lparr>tree_of = initialized_tree ?d 1, queue_of = [], use_apriori = True,
              counter_of = Some 1\<rparr>"
  from exceed_allocated_memory_iff[where data = ?d and min_len = 1 and max_len = 2 and thrd = 1
      and counter = "Some 0" and meth = Position and st = ?st and len = 1] big_corpus_exceeds
  show ?thesis by (simp add: increment_def numeral_2_eq_2)
qed

text \<open>
  Claim C10. A call to \<open>run_position\<close> never returns a longer queue: on an empty queue it
  returns the empty queue and the trie unchanged, and on a non-empty queue the queue it
  returns is strictly shorter (one record at most for each pair of neighbours). So in the
  position rounds of the controller's loop (meth \<open>position\<close>, or \<open>hybrid\<close> after the
  switch) the queue never grows, and a queue that fits \<open>MAX_SIZE\<close> fits until the run ends.
\<close>

theorem queue_never_grows:
  "run_position [] tree len thrd = Inr ([], tree) \<and>
   (\<forall>q' t'. run_position queue tree len thrd = Inr (q', t') \<longrightarrow>
      length q' \<le> length queue \<and> (queue \<noteq> [] \<longrightarrow> length q' < length queue)) \<and>
   (\<forall>st'. meth = Position \<or> (meth = Hybrid \<and> \<not> use_apriori st) \<longrightarrow>
      loop data max_len thrd meth len st = Inr st' \<longrightarrow>
      length (queue_of st') \<le> length (queue_of st) \<and>
      (int (length (queue_of st)) \<le> MAX_SIZE \<longrightarrow> int (length (queue_of st')) \<le> MAX_SIZE))"
proof -
  have a: "length q' \<le> length queue \<and> (queue \<noteq> [] \<longrightarrow> length q' < length queue)"
    if "run_position queue tree len thrd = Inr (q', t')" for q' t'
    using that run_position_shorter[OF that]
    by (cases "queue = []") (auto simp: run_position_empty)
  have b: "length (queue_of st') \<le> length (queue_of st) \<and>
      (int (length (queue_of st)) \<le> MAX_SIZE \<longrightarrow> int (length (queue_of st')) \<le> MAX_SIZE)"
    if "meth = Position \<or> (meth = Hybrid \<and> \<not> use_apriori st)"
      "loop data max_len thrd meth len st = Inr st'" for st'
    using loop_position[OF that] by auto
  from a b show ?thesis by (auto simp: run_position_empty)
qed

text \<open>
  The claim on the corpus \<open>ACAC\<close>: the queue of four records becomes one of three, in
  \<open>run_position\<close> and in a position round of the loop.
\<close>

theorem queue_never_grows_witness:
  "(\<exists>t'. run_position example_queue example_tree 2 2 = Inr ([(0, 0, 1), (0, 1, 2), (0, 2, 1)], t')) \<and>
   example_queue \<noteq> [] \<and>
   length [(0 :: nat, 0 :: nat, 1 :: nat), (0, 1, 2), (0, 2, 1)] < length example_queue \<and>
   int (length example_queue) \<le> MAX_SIZE \<and>
   (\<exists>st'. loop example_data 2 2 Position 1
            \<lparr>tree_of = example_tree, queue_of = example_queue, use_apriori = True,
             counter_of = Some 2\<rparr> = Inr st'
          \<and> length (queue_of st') \<le> length example_queue
          \<and> int (length (queue_of st')) \<le> MAX_SIZE)"
proof -
  let ?st = "\<lparr>tree_of = example_tree, queue_of = example_queue, use_apriori = True,
              counter_of = Some 2\<rparr>"
  from example_run_position obtain t' where
    rp: "run_position example_queue example_tree 2 2 = Inr ([(0, 0, 1), (0, 1, 2), (0, 2, 1)], t')" ..
  from example_loop obtain st' where lp: "loop example_data 2 2 Position 1 ?st = Inr st'"
    by blast
  have ne: "example_queue \<noteq> []" and fit: "int (length example_queue) \<le> MAX_SIZE"
    by (simp_all add: example_queue_def MAX_SIZE_def MEM_QUEUE_def MEM_PER_ELEM_def)
  note c = queue_never_grows[where meth = Position and st = ?st and data = example_data
      and max_len = 2 and len = 1 and thrd = 2]
  from queue_never_grows[where tree = example_tree and len = 2 and thrd = 2
      and queue = example_queue] rp ne
  have "length [(0 :: nat, 0 :: nat, 1 :: nat), (0, 1, 2), (0, 2, 1)] < length example_queue"
    by blast
  moreover from c lp fit
  have "length (queue_of st') \<le> length example_queue \<and> int (length (queue_of st')) \<le> MAX_SIZE"
    by simp
  ultimately show ?thesis using rp ne fit lp by blast
qed


end
